theory Spec2Isabelle
  imports Complex_Main "HOL-Library.Sublist" "HOL-Library.Multiset"
begin

section \<open>Strings\<close>

text \<open>
  Python strings are modelled as \<^typ>\<open>string\<close>; text outside ASCII is its UTF-8 byte
  sequence, which concatenation, joining and substring search respect.
  \<open>py_in sub s\<close> is Python's \<^verbatim>\<open>sub in s\<close> on strings.
\<close>

fun py_in :: "string \<Rightarrow> string \<Rightarrow> bool" where
  "py_in sub [] = (sub = [])"
| "py_in sub (c # cs) = (prefix sub (c # cs) \<or> py_in sub cs)"

section \<open>The orchestration state machine (orchestration/graph.py)\<close>

text \<open>
  \<^verbatim>\<open>GraphState\<close> is a typed dictionary. Every read in the routing function goes through
  \<^verbatim>\<open>state.get\<close> with a default, so an absent \<^verbatim>\<open>critique\<close>, \<^verbatim>\<open>error\<close> or
  \<^verbatim>\<open>replan_attempts\<close> reads as the empty string or 0; only \<^verbatim>\<open>plan\<close> is read without a
  default and may be \<^verbatim>\<open>None\<close>, hence the option.
\<close>

type_synonym tool_call = "string \<times> (string \<times> string) list"

record GraphState =
  task_description :: string
  plan :: "string list option"
  critique :: string
  tool_calls :: "tool_call list"
  tool_results :: "string list"
  replan_attempts :: int
  error :: string

datatype node = Planner | Critique | Executor | Reflection | End

definition plan_empty :: "string list option \<Rightarrow> bool" where
  "plan_empty p = (case p of None \<Rightarrow> True | Some xs \<Rightarrow> length xs = 0)"

definition should_continue :: "GraphState \<Rightarrow> node" where
  "should_continue state =
     (if replan_attempts state \<ge> 3 then End
      else if error state \<noteq> [] then Reflection
      else if plan_empty (plan state) \<and> critique state = [] then Planner
      else if plan_empty (plan state) \<and> critique state \<noteq> [] then End
      else if \<not> py_in ''good'' (critique state) \<and> replan_attempts state < 3 then Planner
      else if py_in ''good'' (critique state) \<and> \<not> plan_empty (plan state) then Executor
      else End)"

text \<open>
  The routing table of the specification, written from its seven numbered rules with the
  cap as a parameter.
\<close>

definition replan_cap :: int where
  "replan_cap = 3"

datatype route_rule = Rule1 | Rule2 | Rule3 | Rule4 | Rule5 | Rule6 | Rule7

definition rule_applies :: "route_rule \<Rightarrow> GraphState \<Rightarrow> bool" where
  "rule_applies r s =
     (case r of
        Rule1 \<Rightarrow> replan_attempts s \<ge> replan_cap
      | Rule2 \<Rightarrow> error s \<noteq> []
      | Rule3 \<Rightarrow> (plan s = None \<or> plan s = Some []) \<and> critique s = []
      | Rule4 \<Rightarrow> (plan s = None \<or> plan s = Some []) \<and> critique s \<noteq> []
      | Rule5 \<Rightarrow> \<not> sublist ''good'' (critique s) \<and> replan_attempts s < replan_cap
      | Rule6 \<Rightarrow> sublist ''good'' (critique s) \<and> plan s \<noteq> None \<and> plan s \<noteq> Some []
      | Rule7 \<Rightarrow> True)"

definition rule_target :: "route_rule \<Rightarrow> node" where
  "rule_target r =
     (case r of Rule1 \<Rightarrow> End | Rule2 \<Rightarrow> Reflection | Rule3 \<Rightarrow> Planner | Rule4 \<Rightarrow> End
      | Rule5 \<Rightarrow> Planner | Rule6 \<Rightarrow> Executor | Rule7 \<Rightarrow> End)"

fun first_rule :: "route_rule list \<Rightarrow> GraphState \<Rightarrow> node" where
  "first_rule [] s = End"
| "first_rule (r # rs) s = (if rule_applies r s then rule_target r else first_rule rs s)"

definition route_spec :: "GraphState \<Rightarrow> node" where
  "route_spec s = first_rule [Rule1, Rule2, Rule3, Rule4, Rule5, Rule6, Rule7] s"

text \<open>Scenario D of the specification: the third replan still left an error behind.\<close>

definition scenario_D :: GraphState where
  "scenario_D =
     \<lparr> task_description = ''read imaginary_file.txt'',
       plan = Some [''Read imaginary_file.txt''], critique = ''bad plan'', tool_calls = [],
       tool_results = [], replan_attempts = 3, error = ''FileNotFoundError'' \<rparr>"

subsection \<open>The nodes\<close>

text \<open>
  \<^verbatim>\<open>planner_node\<close> either reuses the plan of the state or builds a new one from the
  environment (API key, reasoning provider, keyword fallbacks). The plan it would build is
  the parameter \<open>generated\<close>; everything else is the code's.
\<close>

definition planner_node :: "string list \<Rightarrow> GraphState \<Rightarrow> GraphState" where
  "planner_node generated state =
     (let existing_plan = plan state in
      if existing_plan \<noteq> None \<and> length (the existing_plan) > 0
         \<and> \<not> list_ex (\<lambda>step. py_in ''Fallback'' step) (the existing_plan)
         \<and> replan_attempts state = 0
      then \<lparr> task_description = task_description state, plan = plan state,
             critique = critique state, tool_calls = [], tool_results = [],
             replan_attempts = replan_attempts state, error = [] \<rparr>
      else \<lparr> task_description = task_description state, plan = Some generated,
             critique = critique state, tool_calls = [], tool_results = [],
             replan_attempts = replan_attempts state, error = [] \<rparr>)"

text \<open>The judgment text comes from the reasoning provider (or is \<^verbatim>\<open>"good"\<close> without one).\<close>

definition critique_node :: "string \<Rightarrow> GraphState \<Rightarrow> GraphState" where
  "critique_node judgment state =
     \<lparr> task_description = task_description state, plan = plan state,
       critique = judgment, tool_calls = tool_calls state,
       tool_results = tool_results state, replan_attempts = replan_attempts state,
       error = error state \<rparr>"

text \<open>
  The executor turns each plan step into a tool call, a result text and an error text;
  that translation (keyword matching and registry calls) is the parameter \<open>run\<close>. The loop
  appends to the calls and results and stops at the first step with an error. With no
  step the variable \<^verbatim>\<open>error\<close> is never bound and the final read raises.
\<close>

type_synonym step_outcome = "tool_call option \<times> string \<times> string"

fun executor_loop ::
  "(nat \<Rightarrow> string \<Rightarrow> step_outcome) \<Rightarrow> nat \<Rightarrow> string list \<Rightarrow> tool_call list \<Rightarrow> string list
     \<Rightarrow> string option \<Rightarrow> tool_call list \<times> string list \<times> string option" where
  "executor_loop run i [] calls results err = (calls, results, err)"
| "executor_loop run i (step # rest) calls results err =
     (case run i step of (call, text, err_text) \<Rightarrow>
        (let calls' = (case call of None \<Rightarrow> calls | Some c \<Rightarrow> calls @ [c]);
             results' = results @ [text]
         in if err_text \<noteq> [] then (calls', results', Some err_text)
            else executor_loop run (i + 1) rest calls' results' (Some err_text)))"

datatype node_error = TypeError | UnboundLocalError

definition executor_node ::
  "(nat \<Rightarrow> string \<Rightarrow> step_outcome) \<Rightarrow> GraphState \<Rightarrow> node_error + GraphState" where
  "executor_node run state =
     (case plan state of
        None \<Rightarrow> Inl TypeError
      | Some p \<Rightarrow>
         (case executor_loop run 0 p (tool_calls state) (tool_results state) None of
            (calls, results, None) \<Rightarrow> Inl UnboundLocalError
          | (calls, results, Some err) \<Rightarrow>
              Inr \<lparr> task_description = task_description state, plan = Some p,
                    critique = critique state, tool_calls = calls, tool_results = results,
                    replan_attempts = replan_attempts state, error = err \<rparr>))"

text \<open>The corrected plan comes from the reasoning provider or the keyword heuristic.\<close>

definition reflection_node :: "string list \<Rightarrow> GraphState \<Rightarrow> GraphState" where
  "reflection_node new_plan state =
     \<lparr> task_description = task_description state, plan = Some new_plan,
       critique = [], tool_calls = tool_calls state, tool_results = tool_results state,
       replan_attempts = replan_attempts state + 1, error = [] \<rparr>"

subsection \<open>The graph\<close>

text \<open>
  The edges of the compiled graph: the planner is the entry point and is followed by
  critique; after critique \<open>should_continue\<close> chooses the successor; reflection returns to
  the planner; the executor has no outgoing edge, so the run ends after it.
\<close>

inductive step :: "node \<times> GraphState \<Rightarrow> node \<times> GraphState \<Rightarrow> bool" where
  planner_edge: "step (Planner, s) (Critique, planner_node generated s)"
| critique_edge:
    "s' = critique_node judgment s \<Longrightarrow> step (Critique, s) (should_continue s', s')"
| reflection_edge: "step (Reflection, s) (Planner, reflection_node new_plan s)"
| executor_edge: "executor_node run s = Inr s' \<Longrightarrow> step (Executor, s) (End, s')"

text \<open>
  A run in which the critique keeps rejecting the plan: the state the integrated
  orchestrator starts the graph with, and the state after the first planner and critique
  pass when the provider answers with a two-step plan and a judgment without "good".
\<close>

definition initial_state :: GraphState where
  "initial_state =
     \<lparr> task_description = ''write and read a file'', plan = Some [], critique = [],
       tool_calls = [], tool_results = [], replan_attempts = 0, error = [] \<rparr>"

definition rejected_state :: GraphState where
  "rejected_state =
     \<lparr> task_description = ''write and read a file'',
       plan = Some [''write file'', ''read file''], critique = ''needs more detail'',
       tool_calls = [], tool_results = [], replan_attempts = 0, error = [] \<rparr>"

definition bounded_config :: "node \<times> GraphState \<Rightarrow> bool" where
  "bounded_config c =
     (replan_attempts (snd c) \<le> 3 \<and> (fst c \<noteq> Reflection \<or> replan_attempts (snd c) < 3))"

section \<open>Tool results (tools/base.py)\<close>

text \<open>
  \<^verbatim>\<open>ToolResult\<close> is a frozen dataclass of three optional strings. A field is truthy when
  it is neither \<^verbatim>\<open>None\<close> nor the empty string.
\<close>

record ToolResult =
  tool_output :: "string option"
  tool_error :: "string option"
  tool_system :: "string option"

datatype tool_exception = ValueError string

definition truthy :: "string option \<Rightarrow> bool" where
  "truthy field = (case field of None \<Rightarrow> False | Some text \<Rightarrow> text \<noteq> [])"

definition combine_fields ::
  "string option \<Rightarrow> string option \<Rightarrow> bool \<Rightarrow> tool_exception + string option" where
  "combine_fields field other_field concatenate =
     (if truthy field \<and> truthy other_field then
        (if concatenate then Inr (Some (the field @ the other_field))
         else Inl (ValueError ''Cannot combine tool results''))
      else Inr (if truthy field then field else other_field))"

text \<open>\<^verbatim>\<open>__add__\<close> calls \<^verbatim>\<open>combine_fields\<close> with its default \<^verbatim>\<open>concatenate=True\<close> for all three fields.\<close>

definition tool_result_add :: "ToolResult \<Rightarrow> ToolResult \<Rightarrow> tool_exception + ToolResult" where
  "tool_result_add self other =
     (case combine_fields (tool_output self) (tool_output other) True of
        Inl e \<Rightarrow> Inl e
      | Inr out \<Rightarrow>
         (case combine_fields (tool_error self) (tool_error other) True of
            Inl e \<Rightarrow> Inl e
          | Inr err \<Rightarrow>
             (case combine_fields (tool_system self) (tool_system other) True of
                Inl e \<Rightarrow> Inl e
              | Inr sys \<Rightarrow> Inr \<lparr> tool_output = out, tool_error = err, tool_system = sys \<rparr>)))"

section \<open>Strategy selection (orchestration/integrated_graph.py)\<close>

text \<open>
  Strategies are the strings the code returns: \<^verbatim>\<open>"plan_execute"\<close> is the step scheduler,
  \<^verbatim>\<open>"langgraph"\<close> the state machine. The complexity score and the required plugins are
  computed by the caller and passed in.
\<close>

definition select_strategy :: "int \<Rightarrow> string \<Rightarrow> string list \<Rightarrow> string" where
  "select_strategy complexity task required_plugins =
     (if required_plugins \<noteq> [] then ''plan_execute''
      else if complexity \<ge> 8 then ''plan_execute''
      else if complexity \<le> 4 then ''langgraph''
      else ''hybrid'')"

text \<open>
  The confidence estimate. Python floats are idealised as reals. The registered tool
  names and the ids of the installed plugins are read from the registry and the plugin
  manager and are parameters here.
\<close>

definition base_confidence :: real where
  "base_confidence = 0.7"

definition strategy_modifiers :: "string \<Rightarrow> real option" where
  "strategy_modifiers =
     [''langgraph'' \<mapsto> 0.1, ''plan_execute'' \<mapsto> 0.15, ''hybrid'' \<mapsto> 0.05]"

definition strategy_modifier :: "string \<Rightarrow> real" where
  "strategy_modifier strategy = (case strategy_modifiers strategy of None \<Rightarrow> 0 | Some m \<Rightarrow> m)"

definition tool_modifier :: "string list \<Rightarrow> real" where
  "tool_modifier tools = min (real (length tools) * 0.02) 0.1"

definition plugin_modifier :: "string list \<Rightarrow> string list \<Rightarrow> real" where
  "plugin_modifier required_plugins available_plugins =
     min (real (card (set required_plugins \<inter> set available_plugins)) * 0.05) 0.15"

definition estimate_confidence ::
  "string list \<Rightarrow> string list \<Rightarrow> string \<Rightarrow> string \<Rightarrow> string list \<Rightarrow> real" where
  "estimate_confidence tools available_plugins task strategy required_plugins =
     min (base_confidence + strategy_modifier strategy + tool_modifier tools
            + plugin_modifier required_plugins available_plugins) 0.95"

section \<open>The step scheduler (orchestration/plan_execute_agent.py)\<close>

subsection \<open>Data\<close>

datatype StepStatus = PENDING | RUNNING | SUCCESS | FAILED | RETRYING | SKIPPED

datatype StepPriority = LOW | MEDIUM | HIGH | CRITICAL

fun priority_value :: "StepPriority \<Rightarrow> int" where
  "priority_value LOW = 1"
| "priority_value MEDIUM = 2"
| "priority_value HIGH = 3"
| "priority_value CRITICAL = 4"

text \<open>
  Values of Python type \<^verbatim>\<open>Any\<close> (tool results, parameter values, JSON scalars) are
  strings or integers here; \<^verbatim>\<open>None\<close> is the \<open>None\<close> of an option around them.
\<close>

datatype pyval = PyStr string | PyInt int

type_synonym params = "(string \<times> pyval) list"

record Step =
  step_id :: string
  description :: string
  tool :: string
  parameters :: params
  status :: StepStatus
  priority :: StepPriority
  dependencies :: "string list"
  retry_count :: int
  max_retries :: int
  timeout :: int
  result :: "pyval option"
  step_error :: "string option"
  execution_time :: real
  confidence :: real

record ExecutionPlan =
  ep_id :: string
  ep_task_description :: string
  steps :: "Step list"
  estimated_time :: int
  ep_confidence :: real
  created_at :: real
  metadata :: params

record result_entry =
  entry_step_id :: string
  entry_description :: string
  entry_result :: pyval
  entry_execution_time :: real

record metrics =
  total_steps :: nat
  completed_count :: nat
  failed_count :: nat
  success_rate :: real
  average_step_time :: real

record ExecutionResult =
  plan_id :: string
  success :: bool
  completed_steps :: "Step list"
  failed_steps :: "Step list"
  total_time :: real
  final_result :: "result_entry list"
  error_summary :: string
  performance_metrics :: metrics

text \<open>
  The defaults of the \<^verbatim>\<open>Step\<close> dataclass, as \<^verbatim>\<open>create_plan\<close> and \<^verbatim>\<open>improve_plan\<close>
  use them: only id, description, tool, parameters and priority are passed.
\<close>

definition new_step :: "string \<Rightarrow> string \<Rightarrow> string \<Rightarrow> params \<Rightarrow> StepPriority \<Rightarrow> Step" where
  "new_step i d t ps pr =
     \<lparr> step_id = i, description = d, tool = t, parameters = ps, status = PENDING,
       priority = pr, dependencies = [], retry_count = 0, max_retries = 3, timeout = 30,
       result = None, step_error = None, execution_time = 0, confidence = 0.8 \<rparr>"

subsection \<open>Plan validation\<close>

text \<open>
  The registry is the list of the registered tool names (\<^verbatim>\<open>list_tools\<close>). The issue
  texts of \<^verbatim>\<open>validate_plan\<close> are formatted messages; the datatype keeps what each message
  is built from.
\<close>

datatype issue =
  ToolNotFound string string
| DependencyNotFound string string
| CircularDependencies

text \<open>
  \<^verbatim>\<open>_has_circular_dependencies\<close>: a depth-first search over step ids with the two sets
  \<^verbatim>\<open>visited\<close> and \<^verbatim>\<open>rec_stack\<close> that the nested function updates in place; they are threaded
  through here. \<open>has_cycle\<close> is the nested function, \<open>has_cycle_deps\<close> its loop over the
  dependencies of the step found for the id, \<open>cycle_scan\<close> the outer loop over the steps.
  The first argument bounds the nesting depth of the recursion; \<open>None\<close> means the bound was
  hit.
\<close>

type_synonym dfs_state = "string set \<times> string set"

fun has_cycle :: "nat \<Rightarrow> Step list \<Rightarrow> string \<Rightarrow> dfs_state \<Rightarrow> (bool \<times> dfs_state) option"
  and has_cycle_deps ::
    "nat \<Rightarrow> Step list \<Rightarrow> string list \<Rightarrow> dfs_state \<Rightarrow> (bool \<times> dfs_state) option" where
  "has_cycle 0 all_steps sid st = None"
| "has_cycle (Suc depth) all_steps sid (visited, rec_stack) =
     (let visited1 = insert sid visited; rec_stack1 = insert sid rec_stack in
      case find (\<lambda>s. step_id s = sid) all_steps of
        None \<Rightarrow> Some (False, visited1, rec_stack1 - {sid})
      | Some found \<Rightarrow>
         (case has_cycle_deps depth all_steps (dependencies found) (visited1, rec_stack1) of
            None \<Rightarrow> None
          | Some (True, st') \<Rightarrow> Some (True, st')
          | Some (False, visited2, rec_stack2) \<Rightarrow> Some (False, visited2, rec_stack2 - {sid})))"
| "has_cycle_deps depth all_steps [] st = Some (False, st)"
| "has_cycle_deps depth all_steps (dep # deps) (visited, rec_stack) =
     (if dep \<notin> visited then
        (case has_cycle depth all_steps dep (visited, rec_stack) of
           None \<Rightarrow> None
         | Some (True, st') \<Rightarrow> Some (True, st')
         | Some (False, st') \<Rightarrow> has_cycle_deps depth all_steps deps st')
      else if dep \<in> rec_stack then Some (True, visited, rec_stack)
      else has_cycle_deps depth all_steps deps (visited, rec_stack))"

fun cycle_scan :: "nat \<Rightarrow> Step list \<Rightarrow> Step list \<Rightarrow> dfs_state \<Rightarrow> bool option" where
  "cycle_scan depth all_steps [] st = Some False"
| "cycle_scan depth all_steps (s # rest) (visited, rec_stack) =
     (if step_id s \<notin> visited then
        (case has_cycle depth all_steps (step_id s) (visited, rec_stack) of
           None \<Rightarrow> None
         | Some (True, st') \<Rightarrow> Some True
         | Some (False, st') \<Rightarrow> cycle_scan depth all_steps rest st')
      else cycle_scan depth all_steps rest (visited, rec_stack))"

text \<open>
  Every id the search can reach is a step id or a dependency of some step; the search never
  nests deeper than the number of those ids, which is the depth it is run with.
\<close>

definition plan_ids :: "Step list \<Rightarrow> string list" where
  "plan_ids all_steps = remdups (map step_id all_steps @ concat (map dependencies all_steps))"

definition has_circular_dependencies :: "Step list \<Rightarrow> bool option" where
  "has_circular_dependencies all_steps =
     cycle_scan (Suc (length (plan_ids all_steps))) all_steps all_steps ({}, {})"

definition tool_issues :: "string list \<Rightarrow> Step list \<Rightarrow> issue list" where
  "tool_issues registry ss =
     concat (map (\<lambda>s. if tool s \<notin> set registry then [ToolNotFound (step_id s) (tool s)] else []) ss)"

definition dependency_issues :: "Step list \<Rightarrow> issue list" where
  "dependency_issues ss =
     concat (map (\<lambda>s. concat (map (\<lambda>dep. if dep \<notin> set (map step_id ss)
                                           then [DependencyNotFound (step_id s) dep] else [])
                                (dependencies s))) ss)"

definition validate_plan :: "string list \<Rightarrow> ExecutionPlan \<Rightarrow> (bool \<times> issue list) option" where
  "validate_plan registry p =
     (case has_circular_dependencies (steps p) of
        None \<Rightarrow> None
      | Some circular \<Rightarrow>
         (let issues = tool_issues registry (steps p) @ dependency_issues (steps p)
                        @ (if circular then [CircularDependencies] else [])
          in Some (length issues = 0, issues)))"

text \<open>
  What the claims about plans speak of: an id names the first step of the plan that
  carries it, as the search looks it up; the dependency graph has an edge from an id
  to each dependency of the step it names.
\<close>

definition dep_edges :: "Step list \<Rightarrow> (string \<times> string) set" where
  "dep_edges ss =
     {(v, d). \<exists>s. find (\<lambda>s. step_id s = v) ss = Some s \<and> d \<in> set (dependencies s)}"

definition has_dependency_cycle :: "Step list \<Rightarrow> bool" where
  "has_dependency_cycle ss = (\<exists>v. (v, v) \<in> (dep_edges ss)\<^sup>+)"

definition tools_registered :: "string list \<Rightarrow> Step list \<Rightarrow> bool" where
  "tools_registered registry ss = list_all (\<lambda>s. tool s \<in> set registry) ss"

definition dependencies_resolved :: "Step list \<Rightarrow> bool" where
  "dependencies_resolved ss =
     list_all (\<lambda>s. list_all (\<lambda>dep. dep \<in> set (map step_id ss)) (dependencies s)) ss"

text \<open>
  The invariant of the search: the ids that are visited and no longer on the recursion
  stack are closed under the edges and lie on no cycle.
\<close>

definition closed_acyclic :: "(string \<times> string) set \<Rightarrow> string set \<Rightarrow> bool" where
  "closed_acyclic E B = ((\<forall>b\<in>B. E `` {b} \<subseteq> B) \<and> (\<forall>b\<in>B. (b, b) \<notin> E\<^sup>+))"

subsection \<open>Running one step\<close>

text \<open>
  What lies outside the scheduler is the environment of a run: what the \<open>n\<close>-th tool
  invocation does (its parameter check and its body either return a value or raise with a
  message) and how long it takes, what the reasoning provider proposes as alternative
  parameters, whether the deadline has passed when it is checked after the \<open>n\<close>-th
  invocation, and the total time measured at the end. The usage counters of the registry
  and the execution history of the agent are written but never read by the scheduler and
  are left out.
\<close>

datatype tool_behaviour = Returns "pyval option" | Raises string

record environment =
  tool_run :: "nat \<Rightarrow> string \<Rightarrow> params \<Rightarrow> tool_behaviour"
  elapsed :: "nat \<Rightarrow> real"
  alternative :: "nat \<Rightarrow> Step \<Rightarrow> params option"
  timed_out :: "nat \<Rightarrow> bool"
  total_elapsed :: real

definition not_found_message :: "string \<Rightarrow> string" where
  "not_found_message name =
     [CHR 0xD0, CHR 0x98, CHR 0xD0, CHR 0xBD, CHR 0xD1, CHR 0x81, CHR 0xD1, CHR 0x82,
      CHR 0xD1, CHR 0x80, CHR 0xD1, CHR 0x83, CHR 0xD0, CHR 0xBC, CHR 0xD0, CHR 0xB5,
      CHR 0xD0, CHR 0xBD, CHR 0xD1, CHR 0x82, CHR '' '', CHR 0x27]
     @ name @
     [CHR 0x27, CHR '' '', CHR 0xD0, CHR 0xBD, CHR 0xD0, CHR 0xB5, CHR '' '', CHR 0xD0,
      CHR 0xBD, CHR 0xD0, CHR 0xB0, CHR 0xD0, CHR 0xB9, CHR 0xD0, CHR 0xB4, CHR 0xD0,
      CHR 0xB5, CHR 0xD0, CHR 0xBD]"

definition execute_tool ::
  "string list \<Rightarrow> environment \<Rightarrow> nat \<Rightarrow> string \<Rightarrow> params \<Rightarrow> string + pyval option \<times> real" where
  "execute_tool registry env n name ps =
     (if name \<notin> set registry then Inl (not_found_message name)
      else (case tool_run env n name ps of
              Raises message \<Rightarrow> Inl message
            | Returns res \<Rightarrow> Inr (res, elapsed env n)))"

type_synonym outcome = "bool \<times> pyval option \<times> real"

definition execute_step :: "string list \<Rightarrow> environment \<Rightarrow> nat \<Rightarrow> Step \<Rightarrow> outcome \<times> Step" where
  "execute_step registry env n s =
     (let running = s \<lparr> status := RUNNING \<rparr> in
      case execute_tool registry env n (tool running) (parameters running) of
        Inr (res, t) \<Rightarrow>
          ((True, res, t), running \<lparr> status := SUCCESS, result := res, execution_time := t \<rparr>)
      | Inl message \<Rightarrow>
          ((False, None, elapsed env n),
           running \<lparr> status := FAILED, step_error := Some message,
                     execution_time := elapsed env n \<rparr>))"

text \<open>
  \<open>retry_step\<close> also returns the number of tool invocations made so far, which it advances
  only when it runs the step again.
\<close>

definition retry_step ::
  "string list \<Rightarrow> environment \<Rightarrow> nat \<Rightarrow> Step \<Rightarrow> bool \<Rightarrow> outcome \<times> Step \<times> nat" where
  "retry_step registry env n s alternative_approach =
     (if retry_count s \<ge> max_retries s then ((False, None, 0), s, n)
      else
        (let s1 = s \<lparr> retry_count := retry_count s + 1, status := RETRYING \<rparr>;
             s2 = (if alternative_approach then
                     (case alternative env n s1 of
                        None \<Rightarrow> s1
                      | Some alternative_params \<Rightarrow>
                          if alternative_params \<noteq> [] then s1 \<lparr> parameters := alternative_params \<rparr>
                          else s1)
                   else s1)
         in (case execute_step registry env n s2 of (out, s3) \<Rightarrow> (out, s3, Suc n))))"

subsection \<open>Ordering the steps\<close>

definition next_step :: "Step list \<Rightarrow> Step list \<Rightarrow> Step" where
  "next_step sorted_steps remaining_steps =
     (let ready_steps =
            filter (\<lambda>s. list_all (\<lambda>dep. dep \<in> set (map step_id sorted_steps)) (dependencies s))
              remaining_steps;
          ready_steps = (if ready_steps = [] then take 1 remaining_steps else ready_steps)
      in hd (sort_key (\<lambda>s. - priority_value (priority s)) ready_steps))"

function sort_loop :: "Step list \<Rightarrow> Step list \<Rightarrow> Step list" where
  "sort_loop sorted_steps remaining_steps =
     (if remaining_steps = [] then sorted_steps
      else (let s = next_step sorted_steps remaining_steps
            in sort_loop (sorted_steps @ [s]) (remove1 s remaining_steps)))"
  by pat_completeness auto
termination
proof (relation "measure (\<lambda>(sorted_steps, remaining_steps). length remaining_steps)")
  fix sorted_steps remaining_steps :: "Step list" and s
  assume nonempty: "remaining_steps \<noteq> []" and s: "s = next_step sorted_steps remaining_steps"
  define ready where "ready =
    filter (\<lambda>s. list_all (\<lambda>dep. dep \<in> set (map step_id sorted_steps)) (dependencies s))
      remaining_steps"
  define chosen where "chosen = (if ready = [] then take 1 remaining_steps else ready)"
  have "chosen \<noteq> []" and "set chosen \<subseteq> set remaining_steps"
    using nonempty by (auto simp: chosen_def ready_def dest: in_set_takeD)
  moreover have "s = hd (sort_key (\<lambda>s. - priority_value (priority s)) chosen)"
    using s by (simp add: next_step_def Let_def chosen_def ready_def)
  ultimately have "s \<in> set remaining_steps"
    by (metis hd_in_set set_empty set_sort subsetD)
  then have "length (remove1 s remaining_steps) < length remaining_steps"
    using nonempty by (simp add: length_remove1)
  then show "((sorted_steps @ [s], remove1 s remaining_steps), sorted_steps, remaining_steps)
      \<in> measure (\<lambda>(sorted_steps, remaining_steps). length remaining_steps)"
    by simp
qed simp

declare sort_loop.simps [simp del]

definition sort_steps_by_priority_and_dependencies :: "Step list \<Rightarrow> Step list" where
  "sort_steps_by_priority_and_dependencies ss = sort_loop [] ss"

subsection \<open>Executing a plan\<close>

definition check_dependencies :: "Step \<Rightarrow> Step list \<Rightarrow> bool" where
  "check_dependencies s completed_so_far =
     list_all (\<lambda>dep. dep \<in> set (map step_id completed_so_far)) (dependencies s)"

text \<open>
  The loop of \<^verbatim>\<open>execute_plan\<close> mutates the steps in place. The state of the loop keeps
  the two result lists, the number of tool invocations made, and the steps handled so far
  as the loop left them.
\<close>

record run_state =
  calls :: nat
  completed :: "Step list"
  failed :: "Step list"
  handled :: "Step list"

definition attempt_step :: "string list \<Rightarrow> environment \<Rightarrow> Step \<Rightarrow> run_state \<Rightarrow> run_state" where
  "attempt_step registry env s st =
     (case execute_step registry env (calls st) s of
        ((ok, res, t), s1) \<Rightarrow>
          if ok then
            st \<lparr> calls := Suc (calls st), completed := completed st @ [s1],
                 handled := handled st @ [s1] \<rparr>
          else
            (case retry_step registry env (Suc (calls st)) s1 True of
               ((retry_ok, retry_res, retry_t), s2, n) \<Rightarrow>
                 if retry_ok then
                   st \<lparr> calls := n, completed := completed st @ [s2],
                        handled := handled st @ [s2] \<rparr>
                 else
                   st \<lparr> calls := n, failed := failed st @ [s2],
                        handled := handled st @ [s2] \<rparr>))"

fun run_steps ::
  "string list \<Rightarrow> environment \<Rightarrow> Step list \<Rightarrow> run_state \<Rightarrow> run_state \<times> Step list" where
  "run_steps registry env [] st = (st, [])"
| "run_steps registry env (s # rest) st =
     (if \<not> check_dependencies s (completed st) then
        run_steps registry env rest (st \<lparr> handled := handled st @ [s \<lparr> status := SKIPPED \<rparr>] \<rparr>)
      else
        (let st1 = attempt_step registry env s st
         in if timed_out env (calls st1) then (st1, rest)
            else run_steps registry env rest st1))"

fun combine_results :: "Step list \<Rightarrow> result_entry list" where
  "combine_results [] = []"
| "combine_results (s # ss) =
     (case result s of
        None \<Rightarrow> combine_results ss
      | Some v \<Rightarrow>
          \<lparr> entry_step_id = step_id s, entry_description = description s, entry_result = v,
            entry_execution_time = execution_time s \<rparr> # combine_results ss)"

fun join :: "string \<Rightarrow> string list \<Rightarrow> string" where
  "join sep [] = []"
| "join sep [x] = x"
| "join sep (x # y # zs) = x @ sep @ join sep (y # zs)"

definition str_of_error :: "string option \<Rightarrow> string" where
  "str_of_error e = (case e of None \<Rightarrow> ''None'' | Some message \<Rightarrow> message)"

text \<open>The entries of the summary start with the Cyrillic word for "step".\<close>

definition step_word :: string where
  "step_word = [CHR 0xD0, CHR 0xA8, CHR 0xD0, CHR 0xB0, CHR 0xD0, CHR 0xB3]"

definition error_line :: "Step \<Rightarrow> string" where
  "error_line s = step_word @ '' '' @ step_id s @ '': '' @ str_of_error (step_error s)"

definition generate_error_summary :: "Step list \<Rightarrow> string" where
  "generate_error_summary failed_list =
     (if failed_list = [] then [] else join ''; '' (map error_line failed_list))"

text \<open>
  \<open>execute_plan\<close> returns the result object; the first component is the plan's steps as
  the run left them, in the order of the schedule.
\<close>

definition execute_plan ::
  "string list \<Rightarrow> environment \<Rightarrow> ExecutionPlan \<Rightarrow> Step list \<times> ExecutionResult" where
  "execute_plan registry env p =
     (let sorted_steps = sort_steps_by_priority_and_dependencies (steps p) in
      case run_steps registry env sorted_steps
             \<lparr> calls = 0, completed = [], failed = [], handled = [] \<rparr> of
        (st, untouched) \<Rightarrow>
          (handled st @ untouched,
           \<lparr> plan_id = ep_id p,
             success = (length (failed st) = 0),
             completed_steps = completed st,
             failed_steps = failed st,
             total_time = total_elapsed env,
             final_result = combine_results (completed st),
             error_summary = generate_error_summary (failed st),
             performance_metrics =
               \<lparr> total_steps = length (steps p),
                 completed_count = length (completed st),
                 failed_count = length (failed st),
                 success_rate =
                   (if steps p \<noteq> [] then real (length (completed st)) / real (length (steps p))
                    else 0),
                 average_step_time =
                   (if steps p \<noteq> [] then total_elapsed env / real (length (steps p)) else 0) \<rparr> \<rparr>))"

subsection \<open>Creating and improving plans\<close>

text \<open>
  The reasoning provider answers with JSON text. A response is kept as what the code
  reads from it; \<open>None\<close> stands for a call that raises or a text that the JSON parser or
  a missing \<^verbatim>\<open>steps\<close>, \<^verbatim>\<open>description\<close>, \<^verbatim>\<open>tool\<close> or \<^verbatim>\<open>parameters\<close> key rejects. The
  provider's answer to \<^verbatim>\<open>create_plan\<close> and to the \<open>k\<close>-th \<^verbatim>\<open>improve_plan\<close> call and the
  clock are the planning environment.
\<close>

record step_data =
  sd_description :: string
  sd_tool :: string
  sd_parameters :: params
  sd_priority :: "pyval option"

record plan_data =
  pd_steps :: "step_data list"
  pd_estimated_time :: "int option"
  pd_confidence :: "real option"

record provider =
  created :: "plan_data option"
  improved :: "nat \<Rightarrow> plan_data option"
  clock :: nat

datatype agent_exception =
  ProviderError
| KeyError string
| ValueError_not_a_priority pyval
| TypeError_not_JSON_serializable
| ValueError_no_valid_plan "issue list"

text \<open>\<^verbatim>\<open>StepPriority(value)\<close>: the enumeration is looked up by its integer values 1 to 4.\<close>

fun StepPriority_of :: "pyval \<Rightarrow> agent_exception + StepPriority" where
  "StepPriority_of (PyInt n) =
     (if n = 1 then Inr LOW else if n = 2 then Inr MEDIUM else if n = 3 then Inr HIGH
      else if n = 4 then Inr CRITICAL else Inl (ValueError_not_a_priority (PyInt n)))"
| "StepPriority_of (PyStr text) = Inl (ValueError_not_a_priority (PyStr text))"

function show_nat :: "nat \<Rightarrow> string" where
  "show_nat n =
     (if n < 10 then [''0123456789'' ! n]
      else show_nat (n div 10) @ [''0123456789'' ! (n mod 10)])"
  by pat_completeness auto
termination
  by (relation "measure (\<lambda>n. n)") auto

declare show_nat.simps [simp del]

text \<open>
  The steps of a response, numbered from 1; \<open>id_suffix\<close> is empty in \<^verbatim>\<open>create_plan\<close> and
  \<^verbatim>\<open>_improved\<close> in \<^verbatim>\<open>improve_plan\<close>. A missing priority defaults to the string
  \<^verbatim>\<open>"medium"\<close>.
\<close>

fun make_steps :: "string \<Rightarrow> nat \<Rightarrow> step_data list \<Rightarrow> agent_exception + Step list" where
  "make_steps id_suffix i [] = Inr []"
| "make_steps id_suffix i (sd # rest) =
     (case StepPriority_of (case sd_priority sd of None \<Rightarrow> PyStr ''medium'' | Some v \<Rightarrow> v) of
        Inl e \<Rightarrow> Inl e
      | Inr pr \<Rightarrow>
         (case make_steps id_suffix (i + 1) rest of
            Inl e \<Rightarrow> Inl e
          | Inr ss \<Rightarrow>
              Inr (new_step (''step_'' @ show_nat (i + 1) @ id_suffix) (sd_description sd)
                     (sd_tool sd) (sd_parameters sd) pr # ss)))"

definition create_plan :: "provider \<Rightarrow> string \<Rightarrow> agent_exception + ExecutionPlan" where
  "create_plan prov task =
     (case created prov of
        None \<Rightarrow> Inl ProviderError
      | Some pd \<Rightarrow>
         (case make_steps [] 0 (pd_steps pd) of
            Inl e \<Rightarrow> Inl e
          | Inr ss \<Rightarrow>
             (case pd_estimated_time pd of
                None \<Rightarrow> Inl (KeyError ''estimated_time'')
              | Some t \<Rightarrow>
                 (case pd_confidence pd of
                    None \<Rightarrow> Inl (KeyError ''confidence'')
                  | Some c \<Rightarrow>
                      Inr \<lparr> ep_id = ''plan_'' @ show_nat (clock prov),
                            ep_task_description = task, steps = ss, estimated_time = t,
                            ep_confidence = c, created_at = real (clock prov),
                            metadata = [] \<rparr>))))"

text \<open>
  \<^verbatim>\<open>improve_plan\<close> first builds its prompt, which embeds
  \<^verbatim>\<open>json.dumps([asdict(step) for step in plan.steps])\<close>. The fields \<^verbatim>\<open>status\<close> and
  \<^verbatim>\<open>priority\<close> of a step are members of the plain enumerations \<^verbatim>\<open>StepStatus\<close> and
  \<^verbatim>\<open>StepPriority\<close>, which the JSON encoder does not accept (the other fields are strings,
  numbers, lists and parsed JSON, which it does): the call raises \<^verbatim>\<open>TypeError\<close> as soon as
  the plan has a step, and gives \<^verbatim>\<open>"[]"\<close> for a plan without steps.
\<close>

fun json_dumps_steps :: "Step list \<Rightarrow> agent_exception + string" where
  "json_dumps_steps [] = Inr ''[]''"
| "json_dumps_steps (s # ss) = Inl TypeError_not_JSON_serializable"

text \<open>
  The prompt is built before the \<^verbatim>\<open>try\<close> statement, so its exception leaves
  \<^verbatim>\<open>improve_plan\<close>. Any failure after that, inside the \<^verbatim>\<open>try\<close>, is caught and the plan is
  returned as it was.
\<close>

definition improve_plan ::
  "provider \<Rightarrow> nat \<Rightarrow> ExecutionPlan \<Rightarrow> issue list \<Rightarrow> agent_exception + ExecutionPlan" where
  "improve_plan prov k p issues =
     (case json_dumps_steps (steps p) of
        Inl e \<Rightarrow> Inl e
      | Inr current_plan \<Rightarrow>
         (case improved prov k of
            None \<Rightarrow> Inr p
          | Some pd \<Rightarrow>
             (case make_steps ''_improved'' 0 (pd_steps pd) of
                Inl e \<Rightarrow> Inr p
              | Inr ss \<Rightarrow>
                  Inr \<lparr> ep_id = ep_id p @ ''_improved'',
                        ep_task_description = ep_task_description p, steps = ss,
                        estimated_time =
                          (case pd_estimated_time pd of None \<Rightarrow> estimated_time p | Some t \<Rightarrow> t),
                        ep_confidence =
                          (case pd_confidence pd of None \<Rightarrow> ep_confidence p | Some c \<Rightarrow> c),
                        created_at = real (clock prov), metadata = [] \<rparr>)))"


text \<open>
  \<open>plan_and_execute\<close> returns the number of \<^verbatim>\<open>improve_plan\<close> calls it made together with
  either the exception it raises or what \<open>execute_plan\<close> returns. Every exception of the
  methods it calls is logged and raised again. The task analysis that precedes planning
  never raises and only feeds the provider's prompt.
\<close>

definition plan_and_execute ::
  "string list \<Rightarrow> environment \<Rightarrow> provider \<Rightarrow> string
     \<Rightarrow> (nat \<times> (agent_exception + Step list \<times> ExecutionResult)) option" where
  "plan_and_execute registry env prov task =
     (case create_plan prov task of
        Inl e \<Rightarrow> Some (0, Inl e)
      | Inr p \<Rightarrow>
         (case validate_plan registry p of
            None \<Rightarrow> None
          | Some (is_valid, issues) \<Rightarrow>
             if \<not> is_valid then
               (case improve_plan prov 0 p issues of
                  Inl e \<Rightarrow> Some (1, Inl e)
                | Inr p' \<Rightarrow>
                   (case validate_plan registry p' of
                      None \<Rightarrow> None
                    | Some (is_valid', issues') \<Rightarrow>
                       if \<not> is_valid' then Some (1, Inl (ValueError_no_valid_plan issues'))
                       else Some (1, Inr (execute_plan registry env p'))))
             else Some (0, Inr (execute_plan registry env p))))"

subsection \<open>Notions used in the properties of the scheduler\<close>

definition within_retries :: "Step \<Rightarrow> bool" where
  "within_retries s = (retry_count s \<le> max_retries s)"

definition result_entry_of :: "Step \<Rightarrow> result_entry" where
  "result_entry_of s =
     \<lparr> entry_step_id = step_id s, entry_description = description s,
       entry_result = the (result s), entry_execution_time = execution_time s \<rparr>"

text \<open>One round of the loop of \<open>execute_plan\<close> without the deadline check.\<close>

definition handle_step :: "string list \<Rightarrow> environment \<Rightarrow> Step \<Rightarrow> run_state \<Rightarrow> run_state" where
  "handle_step registry env s st =
     (if \<not> check_dependencies s (completed st)
      then st \<lparr> handled := handled st @ [s \<lparr> status := SKIPPED \<rparr>] \<rparr>
      else attempt_step registry env s st)"

definition run_all :: "string list \<Rightarrow> environment \<Rightarrow> Step list \<Rightarrow> run_state \<Rightarrow> run_state" where
  "run_all registry env ss st = foldl (\<lambda>st s. handle_step registry env s st) st ss"

definition no_timeout :: "environment \<Rightarrow> bool" where
  "no_timeout env = (\<forall>n. \<not> timed_out env n)"

definition tool_reliable :: "string list \<Rightarrow> environment \<Rightarrow> string \<Rightarrow> bool" where
  "tool_reliable registry env name =
     (name \<in> set registry \<and> (\<forall>n ps. \<exists>res. tool_run env n name ps = Returns res))"

text \<open>
  A step is ready after a list of steps when all its dependencies are ids of that list.
  In a schedule, every step is either ready after the steps before it, or neither it nor
  any later step is.
\<close>

definition ready_after :: "Step list \<Rightarrow> Step \<Rightarrow> bool" where
  "ready_after placed s = (set (dependencies s) \<subseteq> step_id ` set placed)"

definition schedule_ok :: "Step list \<Rightarrow> Step list \<Rightarrow> bool" where
  "schedule_ok placed remaining =
     (\<forall>pre s post. placed = pre @ s # post \<longrightarrow>
        ready_after pre s \<or> (\<forall>r \<in> set (s # post) \<union> set remaining. \<not> ready_after pre r))"

subsection \<open>Example runs\<close>

text \<open>
  A plan around a list of steps, a two-step plan in which the second step depends on the
  first, and a plan of two steps that depend on each other.
\<close>

definition plan_of :: "Step list \<Rightarrow> ExecutionPlan" where
  "plan_of ss =
     \<lparr> ep_id = ''plan_1'', ep_task_description = ''copy a file'', steps = ss,
       estimated_time = 60, ep_confidence = 0.8, created_at = 0, metadata = [] \<rparr>"

definition read_then_write :: "Step list" where
  "read_then_write =
     [new_step ''read'' ''read the file'' ''file'' [] MEDIUM,
      (new_step ''write'' ''write the copy'' ''file'' [] MEDIUM) \<lparr> dependencies := [''read''] \<rparr>]"

definition chicken_and_egg :: "Step list" where
  "chicken_and_egg =
     [(new_step ''chicken'' ''hatch'' ''file'' [] MEDIUM) \<lparr> dependencies := [''egg''] \<rparr>,
      (new_step ''egg'' ''lay'' ''file'' [] MEDIUM) \<lparr> dependencies := [''chicken''] \<rparr>]"

text \<open>
  Scenario E of the specification: \<open>A\<close> and \<open>B\<close> have no dependencies, \<open>C\<close> depends on
  both. The tool \<^verbatim>\<open>flaky\<close> always raises, \<^verbatim>\<open>quiet\<close> returns \<^verbatim>\<open>None\<close>, any other tool
  returns a text.
\<close>

definition scenario_env :: environment where
  "scenario_env =
     \<lparr> tool_run = (\<lambda>n name ps. if name = ''flaky'' then Raises ''boom''
                               else if name = ''quiet'' then Returns None
                               else Returns (Some (PyStr ''ok''))),
       elapsed = (\<lambda>n. 1), alternative = (\<lambda>n s. None), timed_out = (\<lambda>n. False),
       total_elapsed = 5 \<rparr>"

definition scenario_registry :: "string list" where
  "scenario_registry = [''file'', ''flaky'', ''quiet'']"

definition step_A :: Step where
  "step_A = new_step ''A'' ''fetch the page'' ''flaky'' [] MEDIUM"

definition step_B :: Step where
  "step_B = new_step ''B'' ''read the file'' ''file'' [] MEDIUM"

definition step_C :: Step where
  "step_C = (new_step ''C'' ''merge both'' ''file'' [] HIGH) \<lparr> dependencies := [''A'', ''B''] \<rparr>"

definition step_D :: Step where
  "step_D = new_step ''D'' ''clean up'' ''quiet'' [] LOW"

text \<open>Variations: \<open>B\<close> waiting for a failing step \<open>F\<close>, and a second step with the id of \<open>A\<close>.\<close>

definition step_F :: Step where
  "step_F = new_step ''F'' ''query the service'' ''flaky'' [] MEDIUM"

definition step_B_after_F :: Step where
  "step_B_after_F = step_B \<lparr> dependencies := [''F''] \<rparr>"

definition step_A_twin :: Step where
  "step_A_twin = new_step ''A'' ''fetch the mirror'' ''file'' [] MEDIUM"

definition hasty_env :: environment where
  "hasty_env = scenario_env \<lparr> timed_out := (\<lambda>n. True) \<rparr>"




text \<open>
  A run in which a retry succeeds: the tool \<^verbatim>\<open>fetch\<close> raises when it is called without
  parameters and returns a text otherwise, and the reasoning provider proposes a mirror
  as alternative parameters. The step \<open>R\<close> calls it without parameters.
\<close>

definition second_chance_env :: environment where
  "second_chance_env =
     scenario_env
       \<lparr> tool_run := (\<lambda>n name ps. if name = ''fetch''
                                   then (if ps = [] then Raises ''no url''
                                         else Returns (Some (PyStr ''page'')))
                                   else tool_run scenario_env n name ps),
         alternative := (\<lambda>n s. Some [(''url'', PyStr ''mirror'')]) \<rparr>"

definition second_chance_registry :: "string list" where
  "second_chance_registry = ''fetch'' # scenario_registry"

definition step_R :: Step where
  "step_R = new_step ''R'' ''fetch the page'' ''fetch'' [] MEDIUM"

section \<open>Properties of the orchestration state machine\<close>

lemma py_in_sublist: "py_in sub s \<longleftrightarrow> sublist sub s"
  by (induction s) (auto simp: sublist_Cons_right)

lemma plan_empty_iff: "plan_empty p \<longleftrightarrow> (p = None \<or> p = Some [])"
  by (simp add: plan_empty_def split: option.splits)

text \<open>
  Claim C1. For every state the routing function returns the successor that the ordered
  decision list of the specification gives; in particular it returns \<open>End\<close> whenever
  \<open>replan_attempts\<close> has reached the cap of 3, whatever the error and the critique hold.
\<close>

theorem should_continue_route_spec:
  "should_continue s = route_spec s
   \<and> (replan_attempts s \<ge> 3 \<longrightarrow> should_continue s = End)"
  by (simp add: should_continue_def route_spec_def rule_applies_def rule_target_def
      replan_cap_def py_in_sublist plan_empty_iff)

theorem should_continue_route_spec_witness:
  "replan_attempts scenario_D \<ge> 3 \<and> should_continue scenario_D = End"
proof -
  have cap: "replan_attempts scenario_D \<ge> 3"
    by (simp add: scenario_D_def)
  with should_continue_route_spec [of scenario_D] show ?thesis
    by blast
qed

text \<open>
  Claim C10. On both return paths (the reused plan and the newly built plan) the planner
  returns a state whose \<open>tool_calls\<close> and \<open>tool_results\<close> are empty and whose \<open>error\<close> is
  the empty string, so results gathered before a replan do not survive the planner.
\<close>

theorem planner_node_clears:
  "tool_calls (planner_node generated state) = []
   \<and> tool_results (planner_node generated state) = []
   \<and> error (planner_node generated state) = []"
  by (simp add: planner_node_def Let_def)

subsection \<open>Runs of the graph\<close>

text \<open>
  The counter stays within the cap: reflection is the only node that increments it, and the
  router sends a run there only while the counter is below 3.
\<close>

lemma step_keeps_bound: "step c c' \<Longrightarrow> bounded_config c \<Longrightarrow> bounded_config c'"
proof (induction rule: step.induct)
  case (planner_edge s generated)
  then show ?case by (simp add: bounded_config_def planner_node_def Let_def)
next
  case (critique_edge t j s)
  then show ?case
    by (auto simp: bounded_config_def critique_node_def should_continue_def split: if_splits)
next
  case (reflection_edge s new_plan)
  then show ?case by (simp add: bounded_config_def reflection_node_def)
next
  case (executor_edge run s t)
  then show ?case
    by (auto simp: bounded_config_def executor_node_def split: option.splits prod.splits)
qed

text \<open>\<open>End\<close> is final: a run that is at another node has not ended before.\<close>

lemma end_is_final: "\<not> step (End, s) c"
  by (auto elim: step.cases)

lemma first_pass: "(step ^^ 2) (Planner, initial_state) (Planner, rejected_state)"
proof -
  have p: "planner_node [''write file'', ''read file''] initial_state =
      rejected_state \<lparr> critique := [] \<rparr>"
    by (simp add: planner_node_def initial_state_def rejected_state_def)
  have c: "critique_node ''needs more detail'' (rejected_state \<lparr> critique := [] \<rparr>)
      = rejected_state"
    by (simp add: critique_node_def rejected_state_def)
  have r: "should_continue rejected_state = Planner"
    by (simp add: should_continue_def rejected_state_def plan_empty_def)
  have "step (Planner, initial_state) (Critique, rejected_state \<lparr> critique := [] \<rparr>)"
    using planner_edge [of initial_state "[''write file'', ''read file'']"] p by simp
  moreover
  have "step (Critique, rejected_state \<lparr> critique := [] \<rparr>) (Planner, rejected_state)"
    using critique_edge [OF c [symmetric]] r by simp
  ultimately show ?thesis
    by (auto simp: numeral_2_eq_2)
qed

lemma rejected_round: "(step ^^ 2) (Planner, rejected_state) (Planner, rejected_state)"
proof -
  have p: "planner_node [] rejected_state = rejected_state"
    by (simp add: planner_node_def rejected_state_def)
  have c: "critique_node ''needs more detail'' rejected_state = rejected_state"
    by (simp add: critique_node_def rejected_state_def)
  have r: "should_continue rejected_state = Planner"
    by (simp add: should_continue_def rejected_state_def plan_empty_def)
  have "step (Planner, rejected_state) (Critique, rejected_state)"
    using planner_edge [of rejected_state "[]"] p by simp
  moreover have "step (Critique, rejected_state) (Planner, rejected_state)"
    using critique_edge [OF c [symmetric]] r by simp
  ultimately show ?thesis
    by (auto simp: numeral_2_eq_2)
qed

lemma rejected_rounds:
  "(step ^^ (2 * n)) (Planner, rejected_state) (Planner, rejected_state)"
proof (induction n)
  case 0
  then show ?case by simp
next
  case (Suc n)
  have "((step ^^ (2 * n)) OO (step ^^ 2)) (Planner, rejected_state) (Planner, rejected_state)"
    using Suc rejected_round by blast
  then show ?case
    by (simp add: relpowp_add [symmetric])
qed

text \<open>
  Claim C2 says that every run reaches \<open>End\<close> within cap + 2 transitions. The code does not:
  started from the state the orchestrator builds, with a provider that proposes a two-step
  plan and whose critique never contains "good", the run is back at the planner after every
  even number of transitions, in the same state and with \<open>replan_attempts\<close> still 0. The
  rejection branch of the router tests the counter but no node on that path increments it.
\<close>

theorem critique_rejection_never_ends:
  "(step ^^ (2 + 2 * n)) (Planner, initial_state) (Planner, rejected_state)
   \<and> replan_attempts rejected_state = 0"
proof -
  have "((step ^^ 2) OO (step ^^ (2 * n))) (Planner, initial_state) (Planner, rejected_state)"
    using first_pass rejected_rounds by blast
  then show ?thesis
    by (simp add: relpowp_add [symmetric] rejected_state_def)
qed

section \<open>Properties of tool results\<close>

lemma combine_fields_concatenating:
  "combine_fields f g True =
     Inr (if truthy f \<and> truthy g then Some (the f @ the g) else if truthy f then f else g)"
  by (simp add: combine_fields_def)

text \<open>
  Claim C8, as stated, fails: two results that both carry a non-empty, different output are
  combined without any error; the outputs are concatenated.
\<close>

theorem tool_result_add_conflict_counterexample:
  "tool_result_add \<lparr> tool_output = Some ''a'', tool_error = None, tool_system = None \<rparr>
                   \<lparr> tool_output = Some ''b'', tool_error = None, tool_system = None \<rparr>
   = Inr \<lparr> tool_output = Some ''ab'', tool_error = None, tool_system = None \<rparr>"
  by (simp add: tool_result_add_def combine_fields_def truthy_def)

text \<open>
  Claim C8, amended. Adding two tool results never raises. For each of the three fields:
  when both sides are non-empty the result is their concatenation, left side first; when
  only the left side is non-empty it is kept; when the left side is absent or empty the
  right side's value is taken as it is.
\<close>

theorem tool_result_add_never_fails:
  "\<exists>r. tool_result_add a b = Inr r
     \<and> (truthy (tool_output a) \<and> truthy (tool_output b)
          \<longrightarrow> tool_output r = Some (the (tool_output a) @ the (tool_output b)))
     \<and> (truthy (tool_output a) \<and> \<not> truthy (tool_output b) \<longrightarrow> tool_output r = tool_output a)
     \<and> (\<not> truthy (tool_output a) \<longrightarrow> tool_output r = tool_output b)
     \<and> (truthy (tool_error a) \<and> truthy (tool_error b)
          \<longrightarrow> tool_error r = Some (the (tool_error a) @ the (tool_error b)))
     \<and> (truthy (tool_error a) \<and> \<not> truthy (tool_error b) \<longrightarrow> tool_error r = tool_error a)
     \<and> (\<not> truthy (tool_error a) \<longrightarrow> tool_error r = tool_error b)
     \<and> (truthy (tool_system a) \<and> truthy (tool_system b)
          \<longrightarrow> tool_system r = Some (the (tool_system a) @ the (tool_system b)))
     \<and> (truthy (tool_system a) \<and> \<not> truthy (tool_system b) \<longrightarrow> tool_system r = tool_system a)
     \<and> (\<not> truthy (tool_system a) \<longrightarrow> tool_system r = tool_system b)"
  by (simp add: tool_result_add_def combine_fields_concatenating)

theorem tool_result_add_never_fails_witness:
  "truthy (Some ''out'') \<and> truthy (Some ''put'') \<and> truthy (Some ''err'') \<and> \<not> truthy None
   \<and> \<not> truthy (Some [])
   \<and> tool_result_add
        \<lparr> tool_output = Some ''out'', tool_error = Some ''err'', tool_system = Some [] \<rparr>
        \<lparr> tool_output = Some ''put'', tool_error = None, tool_system = Some ''sys'' \<rparr>
      = Inr \<lparr> tool_output = Some ''output'', tool_error = Some ''err'',
              tool_system = Some ''sys'' \<rparr>"
  using tool_result_add_never_fails
    [of "\<lparr> tool_output = Some ''out'', tool_error = Some ''err'', tool_system = Some [] \<rparr>"
        "\<lparr> tool_output = Some ''put'', tool_error = None, tool_system = Some ''sys'' \<rparr>"]
  by (auto simp: truthy_def)

section \<open>Properties of strategy selection\<close>

lemma strategy_modifier_bounds: "0 \<le> strategy_modifier s \<and> strategy_modifier s \<le> 0.15"
  by (simp add: strategy_modifier_def strategy_modifiers_def)

text \<open>
  Claim C9. The selector returns \<open>plan_execute\<close> (the step scheduler) when a required
  plugin was matched or the complexity is at least 8, otherwise \<open>langgraph\<close> (the state
  machine) when the complexity is at most 4, and \<open>hybrid\<close> in between. The confidence is
  the sum of the base 0.7, a strategy bonus in [0, 0.15], a tool bonus in [0, 0.1] and a
  plugin bonus in [0, 0.15], cut off at 0.95, so it lies between 0.7 and 0.95.
\<close>

theorem select_strategy_and_confidence:
  "select_strategy complexity task required_plugins =
     (if required_plugins \<noteq> [] \<or> complexity \<ge> 8 then ''plan_execute''
      else if complexity \<le> 4 then ''langgraph'' else ''hybrid'')
   \<and> estimate_confidence tools available task strategy required_plugins =
       min (0.7 + strategy_modifier strategy + tool_modifier tools
              + plugin_modifier required_plugins available) 0.95
   \<and> 0 \<le> strategy_modifier strategy \<and> strategy_modifier strategy \<le> 0.15
   \<and> 0 \<le> tool_modifier tools \<and> tool_modifier tools \<le> 0.1
   \<and> 0 \<le> plugin_modifier required_plugins available
   \<and> plugin_modifier required_plugins available \<le> 0.15
   \<and> estimate_confidence tools available task strategy required_plugins \<le> 0.95
   \<and> 0.7 \<le> estimate_confidence tools available task strategy required_plugins"
  using strategy_modifier_bounds [of strategy]
  by (simp add: select_strategy_def estimate_confidence_def base_confidence_def
      tool_modifier_def plugin_modifier_def min_def)

theorem select_strategy_and_confidence_witness:
  "select_strategy 5 ''send a slack message'' [''slack'', ''email''] = ''plan_execute''
   \<and> estimate_confidence [''file'', ''http''] [''slack''] ''send a slack message''
        ''plan_execute'' [''slack'', ''email''] = 0.94
   \<and> estimate_confidence [''file'', ''http''] [''slack''] ''send a slack message''
        ''plan_execute'' [''slack'', ''email''] \<le> 0.95"
  using select_strategy_and_confidence
    [where complexity = 5 and task = "''send a slack message''"
       and required_plugins = "[''slack'', ''email'']" and tools = "[''file'', ''http'']"
       and available = "[''slack'']" and strategy = "''plan_execute''"]
  by (simp add: strategy_modifier_def strategy_modifiers_def tool_modifier_def
      plugin_modifier_def)

section \<open>Properties of plan validation\<close>

subsection \<open>The cycle search\<close>

lemma has_cycle_Suc_cases:
  assumes "has_cycle (Suc n) ss v (vis, rs) = Some (r, vis', rs')"
  obtains
    (unknown) "find (\<lambda>s. step_id s = v) ss = None" "r = False" "vis' = insert v vis"
      "rs' = insert v rs - {v}"
  | (cyclic) f where "find (\<lambda>s. step_id s = v) ss = Some f" "r = True"
      "has_cycle_deps n ss (dependencies f) (insert v vis, insert v rs) = Some (True, vis', rs')"
  | (finished) f rs2 where "find (\<lambda>s. step_id s = v) ss = Some f" "r = False"
      "has_cycle_deps n ss (dependencies f) (insert v vis, insert v rs) = Some (False, vis', rs2)"
      "rs' = rs2 - {v}"
  using assms
  by (auto simp: Let_def split: option.splits bool.splits prod.splits)

lemma has_cycle_deps_Cons_cases:
  assumes "has_cycle_deps n ss (d # ds) (vis, rs) = Some (r, vis', rs')"
  obtains
    (descend_cyclic) "d \<notin> vis" "r = True" "has_cycle n ss d (vis, rs) = Some (True, vis', rs')"
  | (descend) vis1 rs1 where "d \<notin> vis" "has_cycle n ss d (vis, rs) = Some (False, vis1, rs1)"
      "has_cycle_deps n ss ds (vis1, rs1) = Some (r, vis', rs')"
  | (back_edge) "d \<in> vis" "d \<in> rs" "r = True" "vis' = vis" "rs' = rs"
  | (seen) "d \<in> vis" "d \<notin> rs" "has_cycle_deps n ss ds (vis, rs) = Some (r, vis', rs')"
  using assms
  by (auto split: if_splits option.splits bool.splits prod.splits)

lemma deps_visited_grows:
  assumes hc: "\<And>v vis rs r vis' rs'.
      has_cycle n ss v (vis, rs) = Some (r, vis', rs') \<Longrightarrow> insert v vis \<subseteq> vis'"
  shows "has_cycle_deps n ss ds (vis, rs) = Some (r, vis', rs') \<Longrightarrow> vis \<subseteq> vis'"
proof (induction ds arbitrary: vis rs)
  case Nil
  then show ?case by simp
next
  case (Cons d ds)
  from Cons.prems show ?case
  proof (cases rule: has_cycle_deps_Cons_cases)
    case descend_cyclic
    then show ?thesis using hc by blast
  next
    case (descend vis1 rs1)
    then have "vis \<subseteq> vis1" using hc by blast
    moreover have "vis1 \<subseteq> vis'" using Cons.IH descend(3) by blast
    ultimately show ?thesis by blast
  next
    case back_edge
    then show ?thesis by simp
  next
    case seen
    then show ?thesis using Cons.IH by blast
  qed
qed

lemma has_cycle_visited_grows:
  "has_cycle n ss v (vis, rs) = Some (r, vis', rs') \<Longrightarrow> insert v vis \<subseteq> vis'"
proof (induction n arbitrary: v vis rs r vis' rs')
  case 0
  then show ?case by simp
next
  case (Suc n)
  have deps: "vis0 \<subseteq> vis1"
    if "has_cycle_deps n ss ds (vis0, rs0) = Some (r0, vis1, rs1)" for ds vis0 rs0 r0 vis1 rs1
  proof (rule deps_visited_grows [of n ss])
    show "insert v vis \<subseteq> vis'" if "has_cycle n ss v (vis, rs) = Some (r, vis', rs')"
      for v vis rs r vis' rs'
      using that by (rule Suc.IH)
    show "has_cycle_deps n ss ds (vis0, rs0) = Some (r0, vis1, rs1)" by fact
  qed
  from Suc.prems show ?case
  proof (cases rule: has_cycle_Suc_cases)
    case unknown
    then show ?thesis by simp
  next
    case (cyclic f)
    then show ?thesis using deps by blast
  next
    case (finished f rs2)
    then show ?thesis using deps by blast
  qed
qed

lemma has_cycle_deps_visited_grows:
  "has_cycle_deps n ss ds (vis, rs) = Some (r, vis', rs') \<Longrightarrow> vis \<subseteq> vis'"
  by (rule deps_visited_grows [of n ss]) (rule has_cycle_visited_grows)

lemma closed_reach:
  assumes "closed_acyclic E B" "(b, x) \<in> E\<^sup>*" "b \<in> B"
  shows "x \<in> B"
  using assms(2,1,3)
  by (induction rule: rtrancl_induct) (auto simp: closed_acyclic_def)

lemma closed_acyclic_insert:
  assumes ca: "closed_acyclic E B" and new: "v \<notin> B" and succ: "E `` {v} \<subseteq> B"
  shows "closed_acyclic E (insert v B)"
proof -
  have "(v, v) \<notin> E\<^sup>+"
  proof
    assume "(v, v) \<in> E\<^sup>+"
    then obtain d where "(v, d) \<in> E" "(d, v) \<in> E\<^sup>*"
      by (meson tranclD)
    with succ have "d \<in> B" by blast
    with ca \<open>(d, v) \<in> E\<^sup>*\<close> have "v \<in> B" by (rule closed_reach)
    with new show False by simp
  qed
  with ca succ show ?thesis
    by (auto simp: closed_acyclic_def)
qed

lemma dep_edges_found:
  "find (\<lambda>s. step_id s = v) ss = Some f \<Longrightarrow> dep_edges ss `` {v} = set (dependencies f)"
  by (auto simp: dep_edges_def)

lemma dep_edges_unknown:
  "find (\<lambda>s. step_id s = v) ss = None \<Longrightarrow> dep_edges ss `` {v} = {}"
  by (auto simp: dep_edges_def)

lemma deps_search_correct:
  assumes hc: "\<And>v vis rs r vis' rs'.
      has_cycle n ss v (vis, rs) = Some (r, vis', rs') \<Longrightarrow> v \<notin> vis \<Longrightarrow> rs \<subseteq> vis \<Longrightarrow>
      closed_acyclic (dep_edges ss) (vis - rs) \<Longrightarrow> (\<forall>g\<in>rs. (g, v) \<in> (dep_edges ss)\<^sup>*) \<Longrightarrow>
      (r \<longrightarrow> has_dependency_cycle ss)
      \<and> (\<not> r \<longrightarrow> rs' = rs \<and> closed_acyclic (dep_edges ss) (vis' - rs))"
  shows "has_cycle_deps n ss ds (vis, rs) = Some (r, vis', rs') \<Longrightarrow> v \<in> rs \<Longrightarrow> rs \<subseteq> vis \<Longrightarrow>
      closed_acyclic (dep_edges ss) (vis - rs) \<Longrightarrow> (\<forall>g\<in>rs. (g, v) \<in> (dep_edges ss)\<^sup>*) \<Longrightarrow>
      set ds \<subseteq> dep_edges ss `` {v} \<Longrightarrow>
      (r \<longrightarrow> has_dependency_cycle ss)
      \<and> (\<not> r \<longrightarrow> rs' = rs \<and> closed_acyclic (dep_edges ss) (vis' - rs) \<and> set ds \<subseteq> vis' - rs)"
proof (induction ds arbitrary: vis)
  case Nil
  then show ?case by simp
next
  case (Cons d ds)
  have edge: "(v, d) \<in> dep_edges ss" using Cons.prems(6) by auto
  have reach: "\<forall>g\<in>rs. (g, d) \<in> (dep_edges ss)\<^sup>*"
    using Cons.prems(5) edge by (meson rtrancl.rtrancl_into_rtrancl)
  from Cons.prems(1) show ?case
  proof (cases rule: has_cycle_deps_Cons_cases)
    case descend_cyclic
    then show ?thesis
      using hc [OF descend_cyclic(3) descend_cyclic(1) Cons.prems(3,4) reach] by simp
  next
    case (descend vis1 rs1)
    have first: "rs1 = rs \<and> closed_acyclic (dep_edges ss) (vis1 - rs)"
      using hc [OF descend(2) descend(1) Cons.prems(3,4) reach] by simp
    have grow1: "insert d vis \<subseteq> vis1"
      using descend(2) by (rule has_cycle_visited_grows)
    have rest: "(r \<longrightarrow> has_dependency_cycle ss)
      \<and> (\<not> r \<longrightarrow> rs' = rs \<and> closed_acyclic (dep_edges ss) (vis' - rs) \<and> set ds \<subseteq> vis' - rs)"
    proof (rule Cons.IH)
      show "has_cycle_deps n ss ds (vis1, rs) = Some (r, vis', rs')"
        using descend(3) first by simp
      show "v \<in> rs" by fact
      show "rs \<subseteq> vis1" using Cons.prems(3) grow1 by blast
      show "closed_acyclic (dep_edges ss) (vis1 - rs)" using first by simp
      show "\<forall>g\<in>rs. (g, v) \<in> (dep_edges ss)\<^sup>*" by fact
      show "set ds \<subseteq> dep_edges ss `` {v}" using Cons.prems(6) by simp
    qed
    have grow2: "vis1 \<subseteq> vis'"
      using descend(3) by (rule has_cycle_deps_visited_grows)
    have "d \<in> vis' - rs"
      using grow1 grow2 descend(1) Cons.prems(3) by blast
    with rest show ?thesis by simp
  next
    case back_edge
    then have "(d, v) \<in> (dep_edges ss)\<^sup>*" using Cons.prems(5) by blast
    with edge have "(d, d) \<in> (dep_edges ss)\<^sup>+"
      by (rule rtrancl_into_trancl1 [rotated])
    then show ?thesis using back_edge by (auto simp: has_dependency_cycle_def)
  next
    case seen
    have rest: "(r \<longrightarrow> has_dependency_cycle ss)
      \<and> (\<not> r \<longrightarrow> rs' = rs \<and> closed_acyclic (dep_edges ss) (vis' - rs) \<and> set ds \<subseteq> vis' - rs)"
      using Cons.IH [OF seen(3) Cons.prems(2,3,4,5)] Cons.prems(6) by simp
    have "vis \<subseteq> vis'"
      using seen(3) by (rule has_cycle_deps_visited_grows)
    with seen have "d \<in> vis' - rs" by blast
    with rest show ?thesis by simp
  qed
qed

lemma has_cycle_correct:
  "has_cycle n ss v (vis, rs) = Some (r, vis', rs') \<Longrightarrow> v \<notin> vis \<Longrightarrow> rs \<subseteq> vis \<Longrightarrow>
   closed_acyclic (dep_edges ss) (vis - rs) \<Longrightarrow> (\<forall>g\<in>rs. (g, v) \<in> (dep_edges ss)\<^sup>*) \<Longrightarrow>
   (r \<longrightarrow> has_dependency_cycle ss)
   \<and> (\<not> r \<longrightarrow> rs' = rs \<and> closed_acyclic (dep_edges ss) (vis' - rs))"
proof (induction n arbitrary: v vis rs r vis' rs')
  case 0
  then show ?case by simp
next
  case (Suc n)
  let ?E = "dep_edges ss"
  have fresh: "v \<notin> rs" using Suc.prems(2,3) by blast
  have inner: "(r0 \<longrightarrow> has_dependency_cycle ss)
      \<and> (\<not> r0 \<longrightarrow> rs1 = insert v rs \<and> closed_acyclic ?E (vis1 - insert v rs)
           \<and> set ds \<subseteq> vis1 - insert v rs)"
    if run: "has_cycle_deps n ss ds (insert v vis, insert v rs) = Some (r0, vis1, rs1)"
      and ds: "set ds \<subseteq> ?E `` {v}" for ds r0 vis1 rs1
  proof (rule deps_search_correct [of n ss ds "insert v vis" "insert v rs" r0 vis1 rs1 v])
    show "(r \<longrightarrow> has_dependency_cycle ss) \<and> (\<not> r \<longrightarrow> rs' = rs \<and> closed_acyclic ?E (vis' - rs))"
      if "has_cycle n ss v (vis, rs) = Some (r, vis', rs')" "v \<notin> vis" "rs \<subseteq> vis"
        "closed_acyclic ?E (vis - rs)" "\<forall>g\<in>rs. (g, v) \<in> ?E\<^sup>*"
      for v vis rs r vis' rs'
      using that by (rule Suc.IH)
    show "has_cycle_deps n ss ds (insert v vis, insert v rs) = Some (r0, vis1, rs1)" by fact
    show "v \<in> insert v rs" by simp
    show "insert v rs \<subseteq> insert v vis" using Suc.prems(3) by blast
    have "insert v vis - insert v rs = vis - rs" using Suc.prems(2) by blast
    then show "closed_acyclic ?E (insert v vis - insert v rs)" using Suc.prems(4) by simp
    show "\<forall>g\<in>insert v rs. (g, v) \<in> ?E\<^sup>*" using Suc.prems(5) by simp
    show "set ds \<subseteq> ?E `` {v}" by fact
  qed
  from Suc.prems(1) show ?case
  proof (cases rule: has_cycle_Suc_cases)
    case unknown
    have "closed_acyclic ?E (insert v (vis - rs))"
      using Suc.prems(4) Suc.prems(2) dep_edges_unknown [OF unknown(1)]
      by (intro closed_acyclic_insert) auto
    moreover have "insert v vis - rs = insert v (vis - rs)" using fresh by blast
    moreover have "insert v rs - {v} = rs" using fresh by blast
    ultimately show ?thesis using unknown by simp
  next
    case (cyclic f)
    then show ?thesis
      using inner [OF cyclic(3)] dep_edges_found [OF cyclic(1)] by simp
  next
    case (finished f rs2)
    have res: "rs2 = insert v rs \<and> closed_acyclic ?E (vis' - insert v rs)
        \<and> set (dependencies f) \<subseteq> vis' - insert v rs"
      using inner [OF finished(3)] dep_edges_found [OF finished(1)] by simp
    have "insert v vis \<subseteq> vis'"
      using finished(3) by (rule has_cycle_deps_visited_grows)
    then have eq: "vis' - rs = insert v (vis' - insert v rs)" using fresh by blast
    have "closed_acyclic ?E (insert v (vis' - insert v rs))"
      using res dep_edges_found [OF finished(1)]
      by (intro closed_acyclic_insert) auto
    moreover have "rs2 - {v} = rs" using res fresh by blast
    ultimately show ?thesis using finished eq by simp
  qed
qed

lemma cycle_scan_correct:
  "cycle_scan n ss xs (vis, {}) = Some r \<Longrightarrow> closed_acyclic (dep_edges ss) vis \<Longrightarrow>
   (r \<longrightarrow> has_dependency_cycle ss)
   \<and> (\<not> r \<longrightarrow> (\<exists>vis'. closed_acyclic (dep_edges ss) vis' \<and> vis \<union> step_id ` set xs \<subseteq> vis'))"
proof (induction xs arbitrary: vis)
  case Nil
  then show ?case by auto
next
  case (Cons s xs)
  show ?case
  proof (cases "step_id s \<in> vis")
    case True
    then have "cycle_scan n ss xs (vis, {}) = Some r" using Cons.prems(1) by simp
    from Cons.IH [OF this Cons.prems(2)] True show ?thesis by auto
  next
    case False
    then obtain r0 vis1 rs1 where
      run: "has_cycle n ss (step_id s) (vis, {}) = Some (r0, vis1, rs1)"
      using Cons.prems(1) by (auto split: option.splits)
    have spec: "(r0 \<longrightarrow> has_dependency_cycle ss)
        \<and> (\<not> r0 \<longrightarrow> rs1 = {} \<and> closed_acyclic (dep_edges ss) (vis1 - {}))"
      using run False Cons.prems(2) by (intro has_cycle_correct) auto
    have grow: "insert (step_id s) vis \<subseteq> vis1"
      using run by (rule has_cycle_visited_grows)
    show ?thesis
    proof (cases r0)
      case True
      then show ?thesis using run False Cons.prems(1) spec by simp
    next
      case no: False
      then have "cycle_scan n ss xs (vis1, {}) = Some r"
        using run False Cons.prems(1) spec by simp
      moreover have "closed_acyclic (dep_edges ss) vis1" using spec no by simp
      ultimately have "(r \<longrightarrow> has_dependency_cycle ss)
          \<and> (\<not> r \<longrightarrow> (\<exists>vis'. closed_acyclic (dep_edges ss) vis' \<and> vis1 \<union> step_id ` set xs \<subseteq> vis'))"
        by (rule Cons.IH)
      then show ?thesis using grow by auto
    qed
  qed
qed

lemma dep_edges_source: "(v, d) \<in> dep_edges ss \<Longrightarrow> v \<in> step_id ` set ss"
  by (auto simp: dep_edges_def find_Some_iff)

lemma has_circular_dependencies_correct:
  assumes "has_circular_dependencies ss = Some r"
  shows "r \<longleftrightarrow> has_dependency_cycle ss"
proof -
  have scan: "(r \<longrightarrow> has_dependency_cycle ss)
      \<and> (\<not> r \<longrightarrow> (\<exists>vis'. closed_acyclic (dep_edges ss) vis' \<and> {} \<union> step_id ` set ss \<subseteq> vis'))"
    using assms unfolding has_circular_dependencies_def
    by (rule cycle_scan_correct) (simp add: closed_acyclic_def)
  have "\<not> has_dependency_cycle ss" if nr: "\<not> r"
  proof
    assume "has_dependency_cycle ss"
    then obtain v where v: "(v, v) \<in> (dep_edges ss)\<^sup>+"
      by (auto simp: has_dependency_cycle_def)
    then obtain d where "(v, d) \<in> dep_edges ss" by (meson tranclD)
    then have "v \<in> step_id ` set ss" by (rule dep_edges_source)
    moreover obtain vis' where "closed_acyclic (dep_edges ss) vis'" "step_id ` set ss \<subseteq> vis'"
      using scan nr by auto
    ultimately show False using v by (auto simp: closed_acyclic_def)
  qed
  with scan show ?thesis by blast
qed

lemma set_plan_ids:
  "set (plan_ids ss) = step_id ` set ss \<union> (\<Union>s\<in>set ss. set (dependencies s))"
  by (auto simp: plan_ids_def)

lemma deps_search_total:
  assumes hc: "\<And>v vis rs. v \<in> U \<Longrightarrow> v \<notin> vis \<Longrightarrow> card (U - vis) \<le> n \<Longrightarrow>
      has_cycle n ss v (vis, rs) \<noteq> None"
    and fin: "finite U"
  shows "set ds \<subseteq> U \<Longrightarrow> card (U - vis) \<le> n \<Longrightarrow> has_cycle_deps n ss ds (vis, rs) \<noteq> None"
proof (induction ds arbitrary: vis rs)
  case Nil
  then show ?case by simp
next
  case (Cons d ds)
  show ?case
  proof (cases "d \<in> vis")
    case True
    then show ?thesis using Cons by auto
  next
    case False
    then obtain r vis1 rs1 where run: "has_cycle n ss d (vis, rs) = Some (r, vis1, rs1)"
      using hc [of d vis rs] Cons.prems by auto
    have "vis \<subseteq> vis1" using has_cycle_visited_grows [OF run] by blast
    then have "card (U - vis1) \<le> card (U - vis)"
      using fin by (intro card_mono) auto
    then have "has_cycle_deps n ss ds (vis1, rs1) \<noteq> None"
      using Cons.IH Cons.prems by simp
    then show ?thesis using run False by (cases r) auto
  qed
qed

lemma has_cycle_total:
  assumes fin: "finite U" and closed: "\<And>s. s \<in> set ss \<Longrightarrow> set (dependencies s) \<subseteq> U"
  shows "v \<in> U \<Longrightarrow> v \<notin> vis \<Longrightarrow> card (U - vis) \<le> n \<Longrightarrow> has_cycle n ss v (vis, rs) \<noteq> None"
proof (induction n arbitrary: v vis rs)
  case 0
  then have "U - vis = {}" using fin by simp
  with 0 show ?case by blast
next
  case (Suc n)
  have "card (U - insert v vis) < card (U - vis)"
    using Suc.prems fin by (intro psubset_card_mono) auto
  then have room: "card (U - insert v vis) \<le> n" using Suc.prems by simp
  show ?case
  proof (cases "find (\<lambda>s. step_id s = v) ss")
    case None
    then show ?thesis by simp
  next
    case (Some f)
    then have "f \<in> set ss" by (auto simp: find_Some_iff)
    then have sub: "set (dependencies f) \<subseteq> U" by (rule closed)
    have "has_cycle_deps n ss (dependencies f) (insert v vis, insert v rs) \<noteq> None"
    proof (rule deps_search_total [of U n ss])
      show "has_cycle n ss v (vis, rs) \<noteq> None"
        if "v \<in> U" "v \<notin> vis" "card (U - vis) \<le> n" for v vis rs
        using that by (rule Suc.IH)
    qed (use fin sub room in auto)
    then show ?thesis using Some by (auto simp: Let_def split: bool.splits)
  qed
qed

lemma cycle_scan_total:
  assumes fin: "finite U" and closed: "\<And>s. s \<in> set ss \<Longrightarrow> set (dependencies s) \<subseteq> U"
    and big: "card U \<le> n"
  shows "step_id ` set xs \<subseteq> U \<Longrightarrow> cycle_scan n ss xs (vis, rs) \<noteq> None"
proof (induction xs arbitrary: vis rs)
  case Nil
  then show ?case by simp
next
  case (Cons s xs)
  have room: "card (U - vis) \<le> n" for vis
    using big fin by (meson Diff_subset card_mono le_trans)
  show ?case
  proof (cases "step_id s \<in> vis")
    case True
    then show ?thesis using Cons by simp
  next
    case False
    have "has_cycle n ss (step_id s) (vis, rs) \<noteq> None"
      using fin closed Cons.prems False room by (intro has_cycle_total) auto
    then obtain r vis1 rs1 where "has_cycle n ss (step_id s) (vis, rs) = Some (r, vis1, rs1)"
      by auto
    moreover have "cycle_scan n ss xs (vis1, rs1) \<noteq> None" using Cons by simp
    ultimately show ?thesis using False by (cases r) auto
  qed
qed

lemma has_circular_dependencies_total: "has_circular_dependencies ss \<noteq> None"
  unfolding has_circular_dependencies_def
proof (rule cycle_scan_total [of "set (plan_ids ss)"])
  show "card (set (plan_ids ss)) \<le> Suc (length (plan_ids ss))"
    using card_length [of "plan_ids ss"] by simp
qed (auto simp: set_plan_ids)

lemma has_circular_dependencies_eq:
  "has_circular_dependencies ss = Some (has_dependency_cycle ss)"
  using has_circular_dependencies_total [of ss] has_circular_dependencies_correct [of ss]
  by auto

lemma tool_issues_empty: "tool_issues registry ss = [] \<longleftrightarrow> tools_registered registry ss"
  by (induction ss) (auto simp: tool_issues_def tools_registered_def)

lemma dependency_issues_empty: "dependency_issues ss = [] \<longleftrightarrow> dependencies_resolved ss"
  by (auto simp: dependency_issues_def dependencies_resolved_def list_all_iff)

text \<open>
  When the step ids of a plan are pairwise distinct, every step is the one its id names, and
  the edges are those from the id of any step to each of its dependencies.
\<close>

lemma find_distinct:
  "distinct (map step_id ss) \<Longrightarrow> s \<in> set ss \<Longrightarrow> find (\<lambda>x. step_id x = step_id s) ss = Some s"
  by (induction ss) (auto simp: rev_image_eqI)

lemma dep_edges_distinct:
  assumes "distinct (map step_id ss)"
  shows "dep_edges ss = {(step_id s, d) | s d. s \<in> set ss \<and> d \<in> set (dependencies s)}"
proof -
  have "find (\<lambda>x. step_id x = v) ss = Some s \<longleftrightarrow> s \<in> set ss \<and> step_id s = v" for v s
    using find_distinct [OF assms] by (auto simp: find_Some_iff)
  then show ?thesis
    by (auto simp: dep_edges_def)
qed

text \<open>
  Claim C3. \<open>validate_plan\<close> always returns. It returns \<open>False\<close> with a non-empty list of
  issues when the plan has a dependency cycle, when the tool of some step is not
  registered, or when some dependency is not the id of a step of the plan; it returns
  \<open>True\<close> with no issue for every plan that is acyclic, uses registered tools only and
  depends on its own step ids only, the empty plan among them.
\<close>

theorem validate_plan_correct:
  "(has_dependency_cycle (steps p) \<or> \<not> tools_registered registry (steps p)
      \<or> \<not> dependencies_resolved (steps p)
     \<longrightarrow> (\<exists>issues. validate_plan registry p = Some (False, issues) \<and> issues \<noteq> []))
   \<and> (\<not> has_dependency_cycle (steps p) \<and> tools_registered registry (steps p)
        \<and> dependencies_resolved (steps p)
     \<longrightarrow> validate_plan registry p = Some (True, []))
   \<and> (steps p = [] \<longrightarrow> validate_plan registry p = Some (True, []))"
proof -
  have "\<not> has_dependency_cycle []" "tools_registered registry []" "dependencies_resolved []"
    by (simp_all add: has_dependency_cycle_def dep_edges_def tools_registered_def
        dependencies_resolved_def)
  then show ?thesis
    by (auto simp: validate_plan_def has_circular_dependencies_eq tool_issues_empty
      dependency_issues_empty)
qed

lemma read_then_write_edges: "dep_edges read_then_write = {(''write'', ''read'')}"
  by (auto simp: dep_edges_def read_then_write_def new_step_def split: if_splits)

lemma read_then_write_acyclic: "\<not> has_dependency_cycle read_then_write"
proof -
  have "(dep_edges read_then_write)\<^sup>+ = {(''write'', ''read'')}"
    unfolding read_then_write_edges by (auto elim: trancl.induct)
  then show ?thesis
    by (simp add: has_dependency_cycle_def)
qed

lemma chicken_and_egg_cyclic: "has_dependency_cycle chicken_and_egg"
proof -
  have "(''chicken'', ''egg'') \<in> dep_edges chicken_and_egg"
    by (simp add: dep_edges_def chicken_and_egg_def new_step_def)
  moreover have "(''egg'', ''chicken'') \<in> dep_edges chicken_and_egg"
    by (simp add: dep_edges_def chicken_and_egg_def new_step_def)
  ultimately have "(''chicken'', ''chicken'') \<in> (dep_edges chicken_and_egg)\<^sup>+"
    by (meson trancl.intros)
  then show ?thesis
    by (auto simp: has_dependency_cycle_def)
qed

theorem validate_plan_correct_witness:
  "has_dependency_cycle (steps (plan_of chicken_and_egg))
   \<and> (\<exists>issues. validate_plan [''file''] (plan_of chicken_and_egg) = Some (False, issues)
         \<and> issues \<noteq> [])
   \<and> \<not> has_dependency_cycle (steps (plan_of read_then_write))
   \<and> tools_registered [''file''] (steps (plan_of read_then_write))
   \<and> dependencies_resolved (steps (plan_of read_then_write))
   \<and> validate_plan [''file''] (plan_of read_then_write) = Some (True, [])
   \<and> steps (plan_of []) = []
   \<and> validate_plan [''file''] (plan_of []) = Some (True, [])"
proof -
  have cyc: "has_dependency_cycle (steps (plan_of chicken_and_egg))"
    by (simp add: plan_of_def chicken_and_egg_cyclic)
  have acyc: "\<not> has_dependency_cycle (steps (plan_of read_then_write))"
    by (simp add: plan_of_def read_then_write_acyclic)
  have ok: "tools_registered [''file''] (steps (plan_of read_then_write))"
    "dependencies_resolved (steps (plan_of read_then_write))"
    by (simp_all add: plan_of_def tools_registered_def dependencies_resolved_def
        read_then_write_def new_step_def)
  have none: "steps (plan_of []) = []"
    by (simp add: plan_of_def)
  show ?thesis
    using cyc acyc ok none
      validate_plan_correct [of "plan_of chicken_and_egg" "[''file'']"]
      validate_plan_correct [of "plan_of read_then_write" "[''file'']"]
      validate_plan_correct [of "plan_of []" "[''file'']"]
    by blast
qed

section \<open>Properties of the step scheduler\<close>

subsection \<open>Retries\<close>

lemma execute_step_retries:
  "execute_step registry env n s = (out, s') \<Longrightarrow>
   retry_count s' = retry_count s \<and> max_retries s' = max_retries s \<and> step_id s' = step_id s"
  by (auto simp: execute_step_def Let_def split: sum.splits)

lemma retry_step_refuses:
  "retry_count s \<ge> max_retries s \<Longrightarrow> retry_step registry env n s alt = ((False, None, 0), s, n)"
  by (simp add: retry_step_def)

lemma retry_step_within:
  assumes "retry_step registry env n s alt = (out, s', n')" "within_retries s"
  shows "within_retries s'"
proof (cases "retry_count s \<ge> max_retries s")
  case True
  then show ?thesis using assms by (simp add: retry_step_def)
next
  case False
  then obtain s2 where run: "execute_step registry env n s2 = (out, s')"
    and s2: "retry_count s2 = retry_count s + 1" "max_retries s2 = max_retries s"
    using assms(1)
    by (auto simp: retry_step_def Let_def split: prod.splits option.splits if_splits)
  from execute_step_retries [OF run] s2 False show ?thesis
    by (simp add: within_retries_def)
qed

lemma attempt_step_within:
  assumes "within_retries s" "list_all within_retries (completed st)"
    "list_all within_retries (failed st)" "list_all within_retries (handled st)"
  shows "list_all within_retries (completed (attempt_step registry env s st))
    \<and> list_all within_retries (failed (attempt_step registry env s st))
    \<and> list_all within_retries (handled (attempt_step registry env s st))"
proof -
  obtain ok res t s1 where first: "execute_step registry env (calls st) s = ((ok, res, t), s1)"
    by (cases "execute_step registry env (calls st) s") auto
  have s1: "within_retries s1"
    using execute_step_retries [OF first] assms(1) by (simp add: within_retries_def)
  obtain rok rres rt s2 n where
    second: "retry_step registry env (Suc (calls st)) s1 True = ((rok, rres, rt), s2, n)"
    by (cases "retry_step registry env (Suc (calls st)) s1 True") auto
  have s2: "within_retries s2"
    using retry_step_within [OF second s1] .
  show ?thesis
    using assms s1 s2 first second by (simp add: attempt_step_def)
qed

lemma run_steps_within:
  "run_steps registry env ss st = (st', rest) \<Longrightarrow> list_all within_retries ss \<Longrightarrow>
   list_all within_retries (completed st) \<Longrightarrow> list_all within_retries (failed st) \<Longrightarrow>
   list_all within_retries (handled st) \<Longrightarrow>
   list_all within_retries (completed st') \<and> list_all within_retries (failed st')
   \<and> list_all within_retries (handled st') \<and> list_all within_retries rest"
proof (induction ss arbitrary: st)
  case Nil
  then show ?case by auto
next
  case (Cons s ss)
  show ?case
  proof (cases "check_dependencies s (completed st)")
    case False
    let ?st1 = "st \<lparr> handled := handled st @ [s \<lparr> status := SKIPPED \<rparr>] \<rparr>"
    have "run_steps registry env ss ?st1 = (st', rest)"
      using Cons.prems(1) False by simp
    then show ?thesis
      using Cons.prems by (intro Cons.IH [of ?st1]) (auto simp: within_retries_def)
  next
    case True
    let ?st1 = "attempt_step registry env s st"
    have st1: "list_all within_retries (completed ?st1) \<and> list_all within_retries (failed ?st1)
        \<and> list_all within_retries (handled ?st1)"
      using Cons.prems by (intro attempt_step_within) auto
    show ?thesis
    proof (cases "timed_out env (calls ?st1)")
      case stop: True
      then show ?thesis using Cons.prems True st1 by (auto simp: Let_def)
    next
      case go: False
      then have "run_steps registry env ss ?st1 = (st', rest)"
        using Cons.prems(1) True by (simp add: Let_def)
      then show ?thesis
        using Cons.prems st1 by (intro Cons.IH [of ?st1]) auto
    qed
  qed
qed

lemma next_step_in:
  assumes "remaining \<noteq> []"
  shows "next_step placed remaining \<in> set remaining"
proof -
  define ready where "ready =
    filter (\<lambda>s. list_all (\<lambda>dep. dep \<in> set (map step_id placed)) (dependencies s)) remaining"
  define chosen where "chosen = (if ready = [] then take 1 remaining else ready)"
  have "chosen \<noteq> []" and "set chosen \<subseteq> set remaining"
    using assms by (auto simp: chosen_def ready_def dest: in_set_takeD)
  moreover have "next_step placed remaining = hd (sort_key (\<lambda>s. - priority_value (priority s)) chosen)"
    by (simp add: next_step_def Let_def chosen_def ready_def)
  ultimately show ?thesis
    by (metis hd_in_set set_empty set_sort subsetD)
qed

lemma mset_sort_loop: "mset (sort_loop placed remaining) = mset placed + mset remaining"
proof (induction placed remaining rule: sort_loop.induct)
  case (1 placed remaining)
  show ?case
  proof (cases "remaining = []")
    case True
    then show ?thesis by (simp add: sort_loop.simps)
  next
    case False
    let ?s = "next_step placed remaining"
    have "?s \<in> set remaining" using False by (rule next_step_in)
    then have "mset remaining = add_mset ?s (mset (remove1 ?s remaining))"
      by simp
    moreover have "mset (sort_loop placed remaining) = mset (placed @ [?s]) + mset (remove1 ?s remaining)"
      using "1.IH" [OF False refl] False by (subst sort_loop.simps) (simp add: Let_def)
    ultimately show ?thesis by simp
  qed
qed

lemma mset_sort_steps: "mset (sort_steps_by_priority_and_dependencies ss) = mset ss"
  by (simp add: sort_steps_by_priority_and_dependencies_def mset_sort_loop)

lemma sort_loop_Nil: "sort_loop placed [] = placed"
  by (simp add: sort_loop.simps)

lemma set_sort_steps: "set (sort_steps_by_priority_and_dependencies ss) = set ss"
  using mset_sort_steps by (metis set_mset_mset)

text \<open>
  Claim C5. A freshly built step has \<open>retry_count\<close> 0 below \<open>max_retries\<close> 3. \<open>retry_step\<close>
  refuses once \<open>retry_count\<close> has reached \<open>max_retries\<close>: it reports failure and leaves
  the step and the invocation count as they are. Otherwise it increments once and stays
  within the bound. So when every step of a plan has \<open>retry_count \<le> max_retries\<close> before
  \<open>execute_plan\<close>, every step has it afterwards, in the plan and in both result lists.
\<close>

theorem retry_count_bounded:
  "retry_count (new_step i d t ps pr) \<le> max_retries (new_step i d t ps pr)
   \<and> (retry_count s \<ge> max_retries s \<longrightarrow>
      retry_step registry env n s alt = ((False, None, 0), s, n))
   \<and> (retry_count s \<le> max_retries s \<longrightarrow>
      retry_count (fst (snd (retry_step registry env n s alt)))
        \<le> max_retries (fst (snd (retry_step registry env n s alt))))
   \<and> ((\<forall>x \<in> set (steps p). retry_count x \<le> max_retries x) \<longrightarrow>
      (\<forall>x \<in> set (fst (execute_plan registry env p))
             \<union> set (completed_steps (snd (execute_plan registry env p)))
             \<union> set (failed_steps (snd (execute_plan registry env p))).
         retry_count x \<le> max_retries x))"
proof (intro conjI impI)
  show "retry_count (new_step i d t ps pr) \<le> max_retries (new_step i d t ps pr)"
    by (simp add: new_step_def)
  show "retry_step registry env n s alt = ((False, None, 0), s, n)"
    if "retry_count s \<ge> max_retries s"
    using that by (rule retry_step_refuses)
  show "retry_count (fst (snd (retry_step registry env n s alt)))
        \<le> max_retries (fst (snd (retry_step registry env n s alt)))"
    if "retry_count s \<le> max_retries s"
    using retry_step_within [of registry env n s alt] that
    by (cases "retry_step registry env n s alt") (auto simp: within_retries_def)
  assume all: "\<forall>x \<in> set (steps p). retry_count x \<le> max_retries x"
  let ?sorted = "sort_steps_by_priority_and_dependencies (steps p)"
  let ?st0 = "\<lparr> calls = 0, completed = [], failed = [], handled = [] \<rparr>"
  obtain st rest where run: "run_steps registry env ?sorted ?st0 = (st, rest)"
    by (cases "run_steps registry env ?sorted ?st0")
  have "list_all within_retries ?sorted"
    using all by (simp add: list_all_iff set_sort_steps within_retries_def)
  then have "list_all within_retries (completed st) \<and> list_all within_retries (failed st)
      \<and> list_all within_retries (handled st) \<and> list_all within_retries rest"
    using run by (intro run_steps_within [of registry env ?sorted ?st0]) auto
  then show "\<forall>x \<in> set (fst (execute_plan registry env p))
             \<union> set (completed_steps (snd (execute_plan registry env p)))
             \<union> set (failed_steps (snd (execute_plan registry env p))).
         retry_count x \<le> max_retries x"
    using run by (auto simp: execute_plan_def Let_def list_all_iff within_retries_def)
qed

theorem retry_count_bounded_witness:
  "retry_count (step_A \<lparr> retry_count := 3 \<rparr>) \<ge> max_retries (step_A \<lparr> retry_count := 3 \<rparr>)
   \<and> retry_step scenario_registry scenario_env 1 (step_A \<lparr> retry_count := 3 \<rparr>) True
       = ((False, None, 0), step_A \<lparr> retry_count := 3 \<rparr>, 1)
   \<and> retry_count step_A \<le> max_retries step_A
   \<and> retry_count (fst (snd (retry_step scenario_registry scenario_env 1 step_A True))) = 1
   \<and> list_all within_retries (steps (plan_of [step_A, step_B, step_C]))
   \<and> list_all within_retries
        (fst (execute_plan scenario_registry scenario_env (plan_of [step_A, step_B, step_C])))
   \<and> list_all within_retries
        (failed_steps
          (snd (execute_plan scenario_registry scenario_env (plan_of [step_A, step_B, step_C]))))"
proof -
  have full: "retry_count (step_A \<lparr> retry_count := 3 \<rparr>) \<ge> max_retries (step_A \<lparr> retry_count := 3 \<rparr>)"
    by (simp add: step_A_def new_step_def)
  have fresh: "retry_count step_A \<le> max_retries step_A"
    by (simp add: step_A_def new_step_def)
  have once: "retry_count (fst (snd (retry_step scenario_registry scenario_env 1 step_A True))) = 1"
    by (simp add: retry_step_def execute_step_def execute_tool_def scenario_env_def
        scenario_registry_def step_A_def new_step_def Let_def)
  have before: "\<forall>x \<in> set (steps (plan_of [step_A, step_B, step_C])). retry_count x \<le> max_retries x"
    by (simp add: plan_of_def step_A_def step_B_def step_C_def new_step_def)
  note thm1 = retry_count_bounded [where s = "step_A \<lparr> retry_count := 3 \<rparr>" and registry = scenario_registry
      and env = scenario_env and n = 1 and alt = True and p = "plan_of [step_A, step_B, step_C]"]
  from thm1 full before once fresh show ?thesis
    by (simp add: list_all_iff within_retries_def)
qed

subsection \<open>Result synthesis\<close>

lemma combine_results_filter:
  "combine_results ss = map result_entry_of (filter (\<lambda>s. result s \<noteq> None) ss)"
  by (induction ss) (auto simp: result_entry_of_def)

text \<open>
  Claim C7, amended. In the result of \<open>execute_plan\<close>, \<open>success\<close> holds exactly when
  \<open>failed_steps\<close> is empty; \<open>final_result\<close> lists, in completion order, the record of
  step id, description, result and execution time of those completed steps whose result is
  not \<^verbatim>\<open>None\<close>; and \<open>error_summary\<close> joins with \<^verbatim>\<open>"; "\<close> one entry per failed step, made of
  the Cyrillic word for "step", a blank, the step id, \<^verbatim>\<open>": "\<close> and the error text.
\<close>

theorem execute_plan_result_synthesis:
  "success (snd (execute_plan registry env p))
     = (failed_steps (snd (execute_plan registry env p)) = [])
   \<and> final_result (snd (execute_plan registry env p))
     = map result_entry_of
         (filter (\<lambda>s. result s \<noteq> None) (completed_steps (snd (execute_plan registry env p))))
   \<and> error_summary (snd (execute_plan registry env p))
     = join ''; '' (map (\<lambda>s. step_word @ '' '' @ step_id s @ '': '' @ str_of_error (step_error s))
                        (failed_steps (snd (execute_plan registry env p))))"
  by (cases "run_steps registry env (sort_steps_by_priority_and_dependencies (steps p))
               \<lparr> calls = 0, completed = [], failed = [], handled = [] \<rparr>")
     (auto simp: execute_plan_def Let_def combine_results_filter generate_error_summary_def
        error_line_def cong: map_cong)

lemma sort_example:
  "sort_steps_by_priority_and_dependencies [step_A, step_B, step_C, step_D] = [step_A, step_B, step_C, step_D]"
  by (simp add: sort_steps_by_priority_and_dependencies_def sort_loop.simps next_step_def
      step_A_def step_B_def step_C_def step_D_def new_step_def Let_def)

text \<open>
  Claim C7, as stated, fails on two counts. In the run of the steps \<open>A\<close>, \<open>B\<close>, \<open>C\<close>, \<open>D\<close>
  the step \<open>D\<close> completes with the result \<^verbatim>\<open>None\<close> and has no record in \<open>final_result\<close>,
  and the summary entry of the failed step \<open>A\<close> is not \<^verbatim>\<open>"A: boom"\<close>.
\<close>

theorem result_synthesis_counterexample:
  "map step_id (completed_steps (snd (execute_plan scenario_registry scenario_env
        (plan_of [step_A, step_B, step_C, step_D])))) = [''B'', ''D'']
   \<and> map entry_step_id (final_result (snd (execute_plan scenario_registry scenario_env
        (plan_of [step_A, step_B, step_C, step_D])))) = [''B'']
   \<and> error_summary (snd (execute_plan scenario_registry scenario_env
        (plan_of [step_A, step_B, step_C, step_D]))) = step_word @ '' A: boom''
   \<and> step_word @ '' A: boom'' \<noteq> ''A: boom''"
  by code_simp

subsection \<open>Planning attempts\<close>

lemma validate_plan_returns:
  "validate_plan registry p =
     Some (tool_issues registry (steps p) @ dependency_issues (steps p)
             @ (if has_dependency_cycle (steps p) then [CircularDependencies] else []) = [],
           tool_issues registry (steps p) @ dependency_issues (steps p)
             @ (if has_dependency_cycle (steps p) then [CircularDependencies] else []))"
  by (simp add: validate_plan_def has_circular_dependencies_eq)

text \<open>
  A plan that validation rejects has a step, since every issue is about a step or a cycle.
  So the prompt of \<open>improve_plan\<close> cannot be built for it: as the code stands, the
  improvement of an invalid plan raises before the provider is asked.
\<close>

lemma invalid_plan_has_step:
  assumes "validate_plan registry p = Some (False, issues)"
  shows "steps p \<noteq> []"
proof
  assume empty: "steps p = []"
  have "\<not> has_dependency_cycle []"
    by (simp add: has_dependency_cycle_def dep_edges_def)
  then have "validate_plan registry p = Some (True, [])"
    using empty
    by (simp add: validate_plan_returns tool_issues_def dependency_issues_def)
  then show False using assms by simp
qed

lemma improve_plan_raises:
  "steps p \<noteq> [] \<Longrightarrow> improve_plan prov k p issues = Inl TypeError_not_JSON_serializable"
  by (cases "steps p") (simp_all add: improve_plan_def)

lemma plan_and_execute_invalid_plan:
  assumes "create_plan prov task = Inr p" "validate_plan registry p = Some (False, issues)"
  shows "plan_and_execute registry env prov task = Some (1, Inl TypeError_not_JSON_serializable)"
  using assms improve_plan_raises [OF invalid_plan_has_step [OF assms(2)], of prov 0 issues]
  by (simp add: plan_and_execute_def)




subsection \<open>Failed steps and their dependents\<close>

lemma execute_step_outcome:
  assumes "execute_step registry env n s = ((ok, res, t), s1)"
  shows "step_id s1 = step_id s" "status s1 = (if ok then SUCCESS else FAILED)"
  using assms by (auto simp: execute_step_def Let_def split: sum.splits)

lemma execute_step_reliable:
  assumes "tool_reliable registry env (tool s)"
  shows "fst (fst (execute_step registry env n s))"
proof -
  obtain res where "tool_run env n (tool s) (parameters s) = Returns res"
    using assms by (auto simp: tool_reliable_def)
  then show ?thesis
    using assms by (simp add: execute_step_def execute_tool_def tool_reliable_def)
qed

lemma retry_step_outcome:
  assumes "retry_step registry env n s alt = ((ok, res, t), s2, n')" "status s = FAILED"
  shows "step_id s2 = step_id s" "status s2 = (if ok then SUCCESS else FAILED)"
proof -
  show "step_id s2 = step_id s"
    using assms(1)
    by (auto simp: retry_step_def Let_def split: if_splits prod.splits option.splits
        dest!: execute_step_outcome(1))
  show "status s2 = (if ok then SUCCESS else FAILED)"
    using assms
    by (auto simp: retry_step_def Let_def split: if_splits prod.splits option.splits
        dest!: execute_step_outcome(2))
qed

lemma handle_step_cases:
  obtains
    (skipped) "\<not> check_dependencies s (completed st)"
      "handle_step registry env s st = st \<lparr> handled := handled st @ [s \<lparr> status := SKIPPED \<rparr>] \<rparr>"
  | (succeeded) s' where "check_dependencies s (completed st)" "step_id s' = step_id s"
      "status s' = SUCCESS"
      "completed (handle_step registry env s st) = completed st @ [s']"
      "failed (handle_step registry env s st) = failed st"
      "handled (handle_step registry env s st) = handled st @ [s']"
  | (gave_up) s' where "check_dependencies s (completed st)" "step_id s' = step_id s"
      "status s' = FAILED"
      "completed (handle_step registry env s st) = completed st"
      "failed (handle_step registry env s st) = failed st @ [s']"
      "handled (handle_step registry env s st) = handled st @ [s']"
      "\<not> fst (fst (execute_step registry env (calls st) s))"
proof (cases "check_dependencies s (completed st)")
  case False
  then show ?thesis using skipped by (simp add: handle_step_def)
next
  case True
  obtain ok res t s1 where first: "execute_step registry env (calls st) s = ((ok, res, t), s1)"
    by (cases "execute_step registry env (calls st) s") auto
  note s1 = execute_step_outcome [OF first]
  show ?thesis
  proof (cases ok)
    case yes: True
    show ?thesis
      using True first yes s1 by (intro succeeded [of s1]) (simp_all add: handle_step_def attempt_step_def)
  next
    case no: False
    obtain rok rres rt s2 n where
      second: "retry_step registry env (Suc (calls st)) s1 True = ((rok, rres, rt), s2, n)"
      by (cases "retry_step registry env (Suc (calls st)) s1 True") auto
    have failed1: "status s1 = FAILED" using s1 no by simp
    note s2 = retry_step_outcome [OF second failed1]
    show ?thesis
    proof (cases rok)
      case True
      with \<open>check_dependencies s (completed st)\<close> first no second s1 s2 show ?thesis
        by (intro succeeded [of s2]) (simp_all add: handle_step_def attempt_step_def)
    next
      case False
      with \<open>check_dependencies s (completed st)\<close> first no second s1 s2 show ?thesis
        by (intro gave_up [of s2]) (simp_all add: handle_step_def attempt_step_def)
    qed
  qed
qed

lemma attempt_step_outcome:
  assumes "execute_step registry env (calls st) s = (first, s1)"
    and "retry_step registry env (Suc (calls st)) s1 True = (second, s2, m)"
  shows "completed (attempt_step registry env s st)
           = (if fst first then completed st @ [s1]
              else if fst second then completed st @ [s2] else completed st)"
    and "failed (attempt_step registry env s st)
           = (if fst first \<or> fst second then failed st else failed st @ [s2])"
    and "handled (attempt_step registry env s st)
           = handled st @ [if fst first then s1 else s2]"
  using assms by (auto simp: attempt_step_def split: prod.splits)

lemma run_steps_no_timeout:
  assumes "no_timeout env"
  shows "run_steps registry env ss st = (run_all registry env ss st, [])"
  using assms
  by (induction ss arbitrary: st) (auto simp: run_all_def handle_step_def no_timeout_def Let_def)

lemma run_all_append:
  "run_all registry env (xs @ ys) st = run_all registry env ys (run_all registry env xs st)"
  by (simp add: run_all_def)

lemma run_all_Cons:
  "run_all registry env (x # xs) st = run_all registry env xs (handle_step registry env x st)"
  by (simp add: run_all_def)

lemma run_all_Nil: "run_all registry env [] st = st"
  by (simp add: run_all_def)

lemma check_dependencies_iff:
  "check_dependencies s done \<longleftrightarrow> set (dependencies s) \<subseteq> step_id ` set done"
  by (auto simp: check_dependencies_def list_all_iff)

lemma handle_step_grows:
  "set (completed st) \<subseteq> set (completed (handle_step registry env s st))"
  "set (failed st) \<subseteq> set (failed (handle_step registry env s st))"
  "set (handled st) \<subseteq> set (handled (handle_step registry env s st))"
  by (cases rule: handle_step_cases [of s st registry env]; simp; blast)+

lemma run_all_grows:
  "set (completed st) \<subseteq> set (completed (run_all registry env ss st))"
  "set (failed st) \<subseteq> set (failed (run_all registry env ss st))"
  "set (handled st) \<subseteq> set (handled (run_all registry env ss st))"
proof (induction ss arbitrary: st)
  case Nil
  {
    case 1 show ?case by (simp add: run_all_Nil)
  next
    case 2 show ?case by (simp add: run_all_Nil)
  next
    case 3 show ?case by (simp add: run_all_Nil)
  }
next
  case (Cons s ss)
  {
    case 1 show ?case
      using order_trans [OF handle_step_grows(1) [of st registry env s]
          Cons.IH(1) [of "handle_step registry env s st"]]
      by (simp add: run_all_Cons)
  next
    case 2 show ?case
      using order_trans [OF handle_step_grows(2) [of st registry env s]
          Cons.IH(2) [of "handle_step registry env s st"]]
      by (simp add: run_all_Cons)
  next
    case 3 show ?case
      using order_trans [OF handle_step_grows(3) [of st registry env s]
          Cons.IH(3) [of "handle_step registry env s st"]]
      by (simp add: run_all_Cons)
  }
qed

lemma handle_step_ids:
  "step_id ` set (completed (handle_step registry env s st))
     \<subseteq> insert (step_id s) (step_id ` set (completed st))"
  "step_id ` set (failed (handle_step registry env s st))
     \<subseteq> insert (step_id s) (step_id ` set (failed st))"
  by (cases rule: handle_step_cases [of s st registry env]; simp; blast)+

lemma ids_helper: "C1 \<subseteq> insert x C \<Longrightarrow> C2 \<subseteq> C1 \<union> S \<Longrightarrow> C2 \<subseteq> insert x C \<union> S"
  by blast

lemma disjoint_helper:
  "C1 \<subseteq> insert x C \<Longrightarrow> F1 \<subseteq> insert x F \<Longrightarrow> x \<notin> S \<Longrightarrow> S \<inter> (C \<union> F) = {} \<Longrightarrow>
   S \<inter> (C1 \<union> F1) = {}"
  by blast

lemma run_all_ids:
  "step_id ` set (completed (run_all registry env ss st))
     \<subseteq> step_id ` set (completed st) \<union> step_id ` set ss"
  "step_id ` set (failed (run_all registry env ss st))
     \<subseteq> step_id ` set (failed st) \<union> step_id ` set ss"
proof (induction ss arbitrary: st)
  case Nil
  {
    case 1 show ?case by (simp add: run_all_Nil)
  next
    case 2 show ?case by (simp add: run_all_Nil)
  }
next
  case (Cons s ss)
  {
    case 1
    have "step_id ` set (completed (run_all registry env ss (handle_step registry env s st)))
        \<subseteq> insert (step_id s) (step_id ` set (completed st)) \<union> step_id ` set ss"
      using handle_step_ids(1) [of registry env s st]
        Cons.IH(1) [of "handle_step registry env s st"]
      by (rule ids_helper)
    then show ?case by (simp add: run_all_Cons)
  next
    case 2
    have "step_id ` set (failed (run_all registry env ss (handle_step registry env s st)))
        \<subseteq> insert (step_id s) (step_id ` set (failed st)) \<union> step_id ` set ss"
      using handle_step_ids(2) [of registry env s st]
        Cons.IH(2) [of "handle_step registry env s st"]
      by (rule ids_helper)
    then show ?case by (simp add: run_all_Cons)
  }
qed

lemma run_all_disjoint:
  "distinct (map step_id ss) \<Longrightarrow>
   step_id ` set ss \<inter> (step_id ` set (completed st) \<union> step_id ` set (failed st)) = {} \<Longrightarrow>
   step_id ` set (completed st) \<inter> step_id ` set (failed st) = {} \<Longrightarrow>
   step_id ` set (completed (run_all registry env ss st))
     \<inter> step_id ` set (failed (run_all registry env ss st)) = {}"
proof (induction ss arbitrary: st)
  case Nil
  then show ?case by (simp add: run_all_Nil)
next
  case (Cons s ss)
  let ?st1 = "handle_step registry env s st"
  have fresh: "step_id s \<notin> step_id ` set (completed st)" "step_id s \<notin> step_id ` set (failed st)"
    "step_id s \<notin> step_id ` set ss"
    using Cons.prems(1,2) by auto
  have a: "step_id ` set ss \<inter> (step_id ` set (completed ?st1) \<union> step_id ` set (failed ?st1)) = {}"
  proof (rule disjoint_helper [OF handle_step_ids [of registry env s st] fresh(3)])
    show "step_id ` set ss \<inter> (step_id ` set (completed st) \<union> step_id ` set (failed st)) = {}"
      using Cons.prems(2) by auto
  qed
  have b: "step_id ` set (completed ?st1) \<inter> step_id ` set (failed ?st1) = {}"
    using fresh(1,2) Cons.prems(3)
    by (cases rule: handle_step_cases [of s st registry env]) auto
  have "distinct (map step_id ss)" using Cons.prems(1) by simp
  from Cons.IH [OF this a b] show ?case by (simp add: run_all_Cons)
qed

lemma run_all_stuck:
  "\<forall>s\<in>set ss. \<not> set (dependencies s) \<subseteq> step_id ` set (completed st) \<Longrightarrow>
   completed (run_all registry env ss st) = completed st"
proof (induction ss arbitrary: st)
  case Nil
  then show ?case by (simp add: run_all_Nil)
next
  case (Cons s ss)
  have "\<not> check_dependencies s (completed st)"
    using Cons.prems by (simp add: check_dependencies_iff)
  then have skip: "handle_step registry env s st
      = st \<lparr> handled := handled st @ [s \<lparr> status := SKIPPED \<rparr>] \<rparr>"
    by (simp add: handle_step_def)
  have "completed (run_all registry env ss (handle_step registry env s st))
      = completed (handle_step registry env s st)"
    using Cons.prems by (intro Cons.IH) (simp add: skip)
  then show ?case by (simp add: run_all_Cons skip)
qed

lemma snoc_eq_middle:
  "xs @ [x] = pre @ s # post \<longleftrightarrow>
     (post = [] \<and> pre = xs \<and> s = x) \<or> (\<exists>post'. post = post' @ [x] \<and> xs = pre @ s # post')"
  by (cases post rule: rev_cases) auto

lemma next_step_choice:
  assumes "remaining \<noteq> []"
  shows "next_step placed remaining \<in> set remaining"
    and "ready_after placed (next_step placed remaining)
         \<or> (\<forall>r\<in>set remaining. \<not> ready_after placed r)"
proof -
  define ready where "ready = filter (ready_after placed) remaining"
  define chosen where "chosen = (if ready = [] then take 1 remaining else ready)"
  define pick where "pick = hd (sort_key (\<lambda>s. - priority_value (priority s)) chosen)"
  have "(\<lambda>s. list_all (\<lambda>dep. dep \<in> set (map step_id placed)) (dependencies s))
      = ready_after placed"
    by (auto simp: ready_after_def list_all_iff fun_eq_iff)
  then have eq: "next_step placed remaining = pick"
    by (simp add: next_step_def Let_def pick_def chosen_def ready_def)
  have ne: "chosen \<noteq> []" and sub: "set chosen \<subseteq> set remaining"
    using assms by (auto simp: chosen_def ready_def dest: in_set_takeD)
  have pick: "pick \<in> set chosen"
    unfolding pick_def using ne by (metis hd_in_set set_empty set_sort)
  show "next_step placed remaining \<in> set remaining"
    using eq pick sub by auto
  show "ready_after placed (next_step placed remaining)
         \<or> (\<forall>r\<in>set remaining. \<not> ready_after placed r)"
  proof (cases "ready = []")
    case True
    then show ?thesis by (auto simp: ready_def filter_empty_conv)
  next
    case False
    then have "pick \<in> set ready" using pick by (simp add: chosen_def)
    then show ?thesis using eq by (simp add: ready_def)
  qed
qed

lemma sort_loop_schedule_ok:
  "schedule_ok placed remaining \<Longrightarrow> schedule_ok (sort_loop placed remaining) []"
proof (induction placed remaining rule: sort_loop.induct)
  case (1 placed remaining)
  show ?case
  proof (cases "remaining = []")
    case True
    then show ?thesis using "1.prems" by (simp add: sort_loop.simps)
  next
    case False
    let ?s = "next_step placed remaining"
    note pick = next_step_choice [OF False, of placed]
    have rest: "set (remove1 ?s remaining) \<subseteq> set remaining"
      by (rule set_remove1_subset)
    have "schedule_ok (placed @ [?s]) (remove1 ?s remaining)"
      unfolding schedule_ok_def
    proof (intro allI impI)
      fix pre s post
      assume split: "placed @ [?s] = pre @ s # post"
      then consider (last) "post = []" "pre = placed" "s = ?s"
        | (inner) post' where "post = post' @ [?s]" "placed = pre @ s # post'"
        by (auto simp: snoc_eq_middle)
      then show "ready_after pre s
          \<or> (\<forall>r\<in>set (s # post) \<union> set (remove1 ?s remaining). \<not> ready_after pre r)"
      proof cases
        case last
        then show ?thesis using pick rest by auto
      next
        case (inner post')
        then have "ready_after pre s
            \<or> (\<forall>r\<in>set (s # post') \<union> set remaining. \<not> ready_after pre r)"
          using "1.prems" by (auto simp: schedule_ok_def)
        then show ?thesis using inner pick(1) rest by auto
      qed
    qed
    then have "schedule_ok (sort_loop (placed @ [?s]) (remove1 ?s remaining)) []"
      using "1.IH" [OF False refl] by simp
    then show ?thesis using False by (subst sort_loop.simps) (simp add: Let_def)
  qed
qed

lemma sort_steps_schedule_ok:
  "schedule_ok (sort_steps_by_priority_and_dependencies ss) []"
  unfolding sort_steps_by_priority_and_dependencies_def
  by (rule sort_loop_schedule_ok) (simp add: schedule_ok_def)

lemma sort_steps_distinct:
  "distinct (map step_id ss) \<Longrightarrow> distinct (map step_id (sort_steps_by_priority_and_dependencies ss))"
  using mset_sort_steps [of ss] by (metis distinct_map mset_eq_imp_distinct_iff mset_map set_mset_mset inj_on_cong)

lemma start_state_simps:
  "completed \<lparr> calls = 0, completed = [], failed = [], handled = [] \<rparr> = []"
  "failed \<lparr> calls = 0, completed = [], failed = [], handled = [] \<rparr> = []"
  by simp_all

lemma dependent_of_failed_is_skipped:
  assumes distinct: "distinct (map step_id (pre @ c # post))"
    and final: "final = run_all registry env (pre @ c # post)
        \<lparr> calls = 0, completed = [], failed = [], handled = [] \<rparr>"
    and dep: "a \<in> set (dependencies c)" and failed: "a \<in> step_id ` set (failed final)"
  shows "c \<lparr> status := SKIPPED \<rparr> \<in> set (handled final)"
    and "step_id c \<notin> step_id ` set (completed final)"
    and "step_id c \<notin> step_id ` set (failed final)"
proof -
  let ?st0 = "\<lparr> calls = 0, completed = [], failed = [], handled = [] \<rparr>"
  let ?st1 = "run_all registry env pre ?st0"
  let ?st2 = "handle_step registry env c ?st1"
  have final2: "final = run_all registry env post ?st2"
    by (simp add: final run_all_append run_all_Cons)
  have disjoint: "step_id ` set (completed final) \<inter> step_id ` set (failed final) = {}"
    unfolding final using distinct by (intro run_all_disjoint) simp_all
  have "set (completed ?st1) \<subseteq> set (completed final)"
    unfolding final2
    using run_all_grows(1) [of ?st2 registry env post] handle_step_grows(1) [of ?st1 registry env c]
    by blast
  then have "a \<notin> step_id ` set (completed ?st1)"
    using disjoint failed by blast
  then have "\<not> check_dependencies c (completed ?st1)"
    using dep by (auto simp: check_dependencies_iff)
  then have skip: "?st2 = ?st1 \<lparr> handled := handled ?st1 @ [c \<lparr> status := SKIPPED \<rparr>] \<rparr>"
    by (simp add: handle_step_def)
  then have "c \<lparr> status := SKIPPED \<rparr> \<in> set (handled ?st2)"
    by simp
  then show "c \<lparr> status := SKIPPED \<rparr> \<in> set (handled final)"
    unfolding final2 using run_all_grows(3) [of ?st2 registry env post] by blast
  have pre_c: "step_id ` set (completed ?st1) \<subseteq> step_id ` set pre"
    and pre_f: "step_id ` set (failed ?st1) \<subseteq> step_id ` set pre"
    using run_all_ids [of registry env pre ?st0] by simp_all
  have "step_id ` set (completed final) \<subseteq> step_id ` set (completed ?st2) \<union> step_id ` set post"
    unfolding final2 by (rule run_all_ids)
  moreover have "completed ?st2 = completed ?st1" by (simp add: skip)
  ultimately have "step_id ` set (completed final) \<subseteq> step_id ` set pre \<union> step_id ` set post"
    using pre_c by auto
  then show "step_id c \<notin> step_id ` set (completed final)"
    using distinct by auto
  have "step_id ` set (failed final) \<subseteq> step_id ` set (failed ?st2) \<union> step_id ` set post"
    unfolding final2 by (rule run_all_ids)
  moreover have "failed ?st2 = failed ?st1" by (simp add: skip)
  ultimately have "step_id ` set (failed final) \<subseteq> step_id ` set pre \<union> step_id ` set post"
    using pre_f by auto
  then show "step_id c \<notin> step_id ` set (failed final)"
    using distinct by auto
qed

lemma earlier_helper:
  "D \<subseteq> P \<Longrightarrow> D \<subseteq> F \<Longrightarrow> F \<subseteq> C \<union> S \<Longrightarrow> P \<inter> S = {} \<Longrightarrow> D \<subseteq> C"
  by blast

lemma dependencies_met_at_turn:
  assumes distinct: "distinct (map step_id (pre @ b # post))"
    and ok: "schedule_ok (pre @ b # post) []"
    and final: "final = run_all registry env (pre @ b # post)
        \<lparr> calls = 0, completed = [], failed = [], handled = [] \<rparr>"
    and deps: "set (dependencies b) \<subseteq> step_id ` set (completed final)"
  shows "check_dependencies b
    (completed (run_all registry env pre \<lparr> calls = 0, completed = [], failed = [], handled = [] \<rparr>))"
proof -
  let ?st0 = "\<lparr> calls = 0, completed = [], failed = [], handled = [] \<rparr>"
  let ?st1 = "run_all registry env pre ?st0"
  have final1: "final = run_all registry env (b # post) ?st1"
    by (simp add: final run_all_append)
  have pre_c: "step_id ` set (completed ?st1) \<subseteq> step_id ` set pre"
    using run_all_ids(1) [of registry env pre ?st0] by simp
  have "set (dependencies b) \<subseteq> step_id ` set (completed ?st1)"
  proof (cases "ready_after pre b")
    case True
    have within: "step_id ` set (completed final)
        \<subseteq> step_id ` set (completed ?st1) \<union> step_id ` set (b # post)"
      unfolding final1 by (rule run_all_ids)
    have apart: "step_id ` set pre \<inter> step_id ` set (b # post) = {}"
      using distinct by auto
    have "set (dependencies b) \<subseteq> step_id ` set pre"
      using True by (simp add: ready_after_def)
    then show ?thesis
      using deps within apart by (rule earlier_helper)
  next
    case False
    then have "\<forall>r\<in>set (b # post). \<not> ready_after pre r"
      using ok unfolding schedule_ok_def by blast
    then have "\<forall>r\<in>set (b # post). \<not> set (dependencies r) \<subseteq> step_id ` set (completed ?st1)"
      using pre_c unfolding ready_after_def by (meson order_trans)
    then have "completed final = completed ?st1"
      unfolding final1 by (rule run_all_stuck)
    then show ?thesis using deps by simp
  qed
  then show ?thesis
    by (simp add: check_dependencies_iff)
qed

lemma step_with_completed_dependencies_runs:
  assumes distinct: "distinct (map step_id (pre @ b # post))"
    and ok: "schedule_ok (pre @ b # post) []"
    and final: "final = run_all registry env (pre @ b # post)
        \<lparr> calls = 0, completed = [], failed = [], handled = [] \<rparr>"
    and deps: "set (dependencies b) \<subseteq> step_id ` set (completed final)"
  shows "\<exists>b'. step_id b' = step_id b \<and> b' \<in> set (handled final)
           \<and> (b' \<in> set (completed final) \<and> status b' = SUCCESS
               \<or> b' \<in> set (failed final) \<and> status b' = FAILED)"
    and "tool_reliable registry env (tool b) \<Longrightarrow>
         \<exists>b'. step_id b' = step_id b \<and> b' \<in> set (completed final) \<and> status b' = SUCCESS"
proof -
  let ?st0 = "\<lparr> calls = 0, completed = [], failed = [], handled = [] \<rparr>"
  let ?st1 = "run_all registry env pre ?st0"
  let ?st2 = "handle_step registry env b ?st1"
  have final2: "final = run_all registry env post ?st2"
    by (simp add: final run_all_append run_all_Cons)
  have final1: "final = run_all registry env (b # post) ?st1"
    by (simp add: final run_all_append)
  have pre_c: "step_id ` set (completed ?st1) \<subseteq> step_id ` set pre"
    using run_all_ids(1) [of registry env pre ?st0] by simp
  have turn: "set (dependencies b) \<subseteq> step_id ` set (completed ?st1)"
  proof (cases "ready_after pre b")
    case True
    have within: "step_id ` set (completed final)
        \<subseteq> step_id ` set (completed ?st1) \<union> step_id ` set (b # post)"
      unfolding final1 by (rule run_all_ids)
    have apart: "step_id ` set pre \<inter> step_id ` set (b # post) = {}"
      using distinct by auto
    have "set (dependencies b) \<subseteq> step_id ` set pre"
      using True by (simp add: ready_after_def)
    then show ?thesis
      using deps within apart by (rule earlier_helper)
  next
    case False
    then have "\<forall>r\<in>set (b # post). \<not> ready_after pre r"
      using ok unfolding schedule_ok_def by blast
    then have "\<forall>r\<in>set (b # post). \<not> set (dependencies r) \<subseteq> step_id ` set (completed ?st1)"
      using pre_c unfolding ready_after_def by (meson order_trans)
    then have "completed final = completed ?st1"
      unfolding final1 by (rule run_all_stuck)
    then show ?thesis using deps by simp
  qed
  then have check: "check_dependencies b (completed ?st1)"
    by (simp add: check_dependencies_iff)
  have grow: "set (completed ?st2) \<subseteq> set (completed final)"
    "set (failed ?st2) \<subseteq> set (failed final)" "set (handled ?st2) \<subseteq> set (handled final)"
    unfolding final2 by (rule run_all_grows)+
  show "\<exists>b'. step_id b' = step_id b \<and> b' \<in> set (handled final)
           \<and> (b' \<in> set (completed final) \<and> status b' = SUCCESS
               \<or> b' \<in> set (failed final) \<and> status b' = FAILED)"
  proof (cases rule: handle_step_cases [of b ?st1 registry env])
    case skipped
    then show ?thesis using check by simp
  next
    case (succeeded s')
    then have "s' \<in> set (completed ?st2)" "s' \<in> set (handled ?st2)" by simp_all
    then show ?thesis using grow succeeded(2,3) by blast
  next
    case (gave_up s')
    then have "s' \<in> set (failed ?st2)" "s' \<in> set (handled ?st2)" by simp_all
    then show ?thesis using grow gave_up(2,3) by blast
  qed
  show "\<exists>b'. step_id b' = step_id b \<and> b' \<in> set (completed final) \<and> status b' = SUCCESS"
    if reliable: "tool_reliable registry env (tool b)"
  proof (cases rule: handle_step_cases [of b ?st1 registry env])
    case skipped
    then show ?thesis using check by simp
  next
    case (succeeded s')
    then have "s' \<in> set (completed ?st2)" by simp
    then show ?thesis using grow succeeded(2,3) by blast
  next
    case (gave_up s')
    then show ?thesis using execute_step_reliable [OF reliable] by simp
  qed
qed

lemma step_outcome_at_turn:
  assumes distinct: "distinct (map step_id (pre @ b # post))"
    and ok: "schedule_ok (pre @ b # post) []"
    and final: "final = run_all registry env (pre @ b # post)
        \<lparr> calls = 0, completed = [], failed = [], handled = [] \<rparr>"
    and deps: "set (dependencies b) \<subseteq> step_id ` set (completed final)"
    and n: "n = calls (run_all registry env pre
        \<lparr> calls = 0, completed = [], failed = [], handled = [] \<rparr>)"
    and first: "execute_step registry env n b = (first, b1)"
    and second: "retry_step registry env (Suc n) b1 True = (second, b2, m)"
  shows "(if fst first then b1 else b2) \<in> set (handled final)"
    and "fst first \<Longrightarrow> b1 \<in> set (completed final) \<and> status b1 = SUCCESS \<and> step_id b1 = step_id b"
    and "\<not> fst first \<Longrightarrow> fst second \<Longrightarrow>
         b2 \<in> set (completed final) \<and> status b2 = SUCCESS \<and> step_id b2 = step_id b"
    and "\<not> fst first \<Longrightarrow> \<not> fst second \<Longrightarrow>
         b2 \<in> set (failed final) \<and> status b2 = FAILED \<and> step_id b2 = step_id b"
proof -
  let ?st0 = "\<lparr> calls = 0, completed = [], failed = [], handled = [] \<rparr>"
  let ?st1 = "run_all registry env pre ?st0"
  let ?st2 = "handle_step registry env b ?st1"
  have final2: "final = run_all registry env post ?st2"
    by (simp add: final run_all_append run_all_Cons)
  have check: "check_dependencies b (completed ?st1)"
    by (rule dependencies_met_at_turn [OF distinct ok final deps])
  then have st2: "?st2 = attempt_step registry env b ?st1"
    by (simp add: handle_step_def)
  have first': "execute_step registry env (calls ?st1) b = (first, b1)"
    using first n by simp
  have second': "retry_step registry env (Suc (calls ?st1)) b1 True = (second, b2, m)"
    using second n by simp
  note outcome = attempt_step_outcome [OF first' second', folded st2]
  have grow: "set (completed ?st2) \<subseteq> set (completed final)"
    "set (failed ?st2) \<subseteq> set (failed final)" "set (handled ?st2) \<subseteq> set (handled final)"
    unfolding final2 by (rule run_all_grows)+
  obtain ok1 res1 t1 where f: "first = (ok1, res1, t1)" by (cases first)
  obtain ok2 res2 t2 where s: "second = (ok2, res2, t2)" by (cases second)
  note b1 = execute_step_outcome [OF first [unfolded f]]
  have "(if fst first then b1 else b2) \<in> set (handled ?st2)"
    by (simp add: outcome(3))
  then show "(if fst first then b1 else b2) \<in> set (handled final)"
    using grow(3) by blast
  show "b1 \<in> set (completed final) \<and> status b1 = SUCCESS \<and> step_id b1 = step_id b"
    if "fst first"
  proof -
    have "b1 \<in> set (completed ?st2)" using that by (simp add: outcome(1))
    then show ?thesis using grow(1) b1 that f by auto
  qed
  have failed1: "status b1 = FAILED" if "\<not> fst first"
    using b1 that f by simp
  show "b2 \<in> set (completed final) \<and> status b2 = SUCCESS \<and> step_id b2 = step_id b"
    if no: "\<not> fst first" and yes: "fst second"
  proof -
    note b2 = retry_step_outcome [OF second [unfolded s] failed1 [OF no]]
    have "b2 \<in> set (completed ?st2)" using no yes by (simp add: outcome(1))
    then show ?thesis using grow(1) b1(1) b2 yes s by auto
  qed
  show "b2 \<in> set (failed final) \<and> status b2 = FAILED \<and> step_id b2 = step_id b"
    if no: "\<not> fst first" and no2: "\<not> fst second"
  proof -
    note b2 = retry_step_outcome [OF second [unfolded s] failed1 [OF no]]
    have "b2 \<in> set (failed ?st2)" using no no2 by (simp add: outcome(2))
    then show ?thesis using grow(2) b1(1) b2 no2 s by auto
  qed
qed

lemma execute_plan_no_timeout:
  assumes "no_timeout env"
  shows "fst (execute_plan registry env p)
      = handled (run_all registry env (sort_steps_by_priority_and_dependencies (steps p))
          \<lparr> calls = 0, completed = [], failed = [], handled = [] \<rparr>)"
    and "completed_steps (snd (execute_plan registry env p))
      = completed (run_all registry env (sort_steps_by_priority_and_dependencies (steps p))
          \<lparr> calls = 0, completed = [], failed = [], handled = [] \<rparr>)"
    and "failed_steps (snd (execute_plan registry env p))
      = failed (run_all registry env (sort_steps_by_priority_and_dependencies (steps p))
          \<lparr> calls = 0, completed = [], failed = [], handled = [] \<rparr>)"
  by (simp_all add: execute_plan_def Let_def run_steps_no_timeout [OF assms])

lemma handle_step_handled_ids:
  "map step_id (handled (handle_step registry env s st)) = map step_id (handled st) @ [step_id s]"
  by (cases rule: handle_step_cases [of s st registry env]) simp_all

lemma run_all_handled_ids:
  "map step_id (handled (run_all registry env ss st)) = map step_id (handled st) @ map step_id ss"
  by (induction ss arbitrary: st) (simp_all add: run_all_Nil run_all_Cons handle_step_handled_ids)

lemma same_id_same_step:
  "distinct (map step_id xs) \<Longrightarrow> x \<in> set xs \<Longrightarrow> y \<in> set xs \<Longrightarrow> step_id x = step_id y \<Longrightarrow> x = y"
  by (meson distinct_map inj_onD)

text \<open>
  Claim C4, amended. Take a plan whose step ids are pairwise distinct and a run that the
  time limit does not cut short. If the step with id \<open>a\<close> ends in \<open>failed_steps\<close>, then every
  step \<open>c\<close> of the plan that lists \<open>a\<close> among its dependencies is left with status
  \<open>SKIPPED\<close> and otherwise untouched, it is the only step with its id after the run, and
  its id is in neither result list: it is never executed. Every step \<open>b\<close> of the plan
  whose own dependencies all end in \<open>completed_steps\<close> (a step without dependencies among
  them) is executed: it ends in \<open>completed_steps\<close> with status \<open>SUCCESS\<close> or in
  \<open>failed_steps\<close> with status \<open>FAILED\<close>, and in \<open>completed_steps\<close> whenever its tool is
  registered and does not raise. Which of the two it is, is decided by its first run and
  its single retry. With \<open>n\<close> the number of tool invocations made for the steps scheduled
  before \<open>b\<close>, the step is run by \<open>execute_step\<close> as invocation \<open>n\<close> and, if that fails,
  once more by \<open>retry_step\<close> with the alternative approach as invocation \<open>n + 1\<close>. The step
  as the successful first run left it, or else as the retry left it, is the only step
  with the id of \<open>b\<close> after the run. When the first run or the retry succeeded, it is in
  \<open>completed_steps\<close> with status \<open>SUCCESS\<close> and its id is not in \<open>failed_steps\<close>; otherwise
  it is in \<open>failed_steps\<close> with status \<open>FAILED\<close> and its id is not in \<open>completed_steps\<close>.
\<close>

theorem failed_step_skips_dependents:
  assumes "distinct (map step_id (steps p))" and "no_timeout env"
    and "a \<in> step_id ` set (failed_steps (snd (execute_plan registry env p)))"
    and "c \<in> set (steps p)" and "a \<in> set (dependencies c)"
    and "b \<in> set (steps p)"
    and "set (dependencies b) \<subseteq> step_id ` set (completed_steps (snd (execute_plan registry env p)))"
  shows "c \<lparr> status := SKIPPED \<rparr> \<in> set (fst (execute_plan registry env p))
    \<and> (\<forall>s \<in> set (fst (execute_plan registry env p)).
          step_id s = step_id c \<longrightarrow> s = c \<lparr> status := SKIPPED \<rparr>)
    \<and> step_id c \<notin> step_id ` set (completed_steps (snd (execute_plan registry env p)))
    \<and> step_id c \<notin> step_id ` set (failed_steps (snd (execute_plan registry env p)))
    \<and> (\<exists>b'. step_id b' = step_id b \<and> b' \<in> set (fst (execute_plan registry env p))
          \<and> (b' \<in> set (completed_steps (snd (execute_plan registry env p))) \<and> status b' = SUCCESS
              \<or> b' \<in> set (failed_steps (snd (execute_plan registry env p))) \<and> status b' = FAILED))
    \<and> (tool_reliable registry env (tool b) \<longrightarrow>
         (\<exists>b'. step_id b' = step_id b
            \<and> b' \<in> set (completed_steps (snd (execute_plan registry env p)))
            \<and> status b' = SUCCESS))
    \<and> (\<forall>pre post. sort_steps_by_priority_and_dependencies (steps p) = pre @ b # post \<longrightarrow>
         (let n = calls (fst (run_steps registry env pre
                      \<lparr> calls = 0, completed = [], failed = [], handled = [] \<rparr>));
              first_run = execute_step registry env n b;
              second_run = retry_step registry env (Suc n) (snd first_run) True;
              b' = (if fst (fst first_run) then snd first_run else fst (snd second_run))
          in b' \<in> set (fst (execute_plan registry env p))
             \<and> (\<forall>s \<in> set (fst (execute_plan registry env p)). step_id s = step_id b \<longrightarrow> s = b')
             \<and> (if fst (fst first_run) \<or> fst (fst second_run)
                 then b' \<in> set (completed_steps (snd (execute_plan registry env p)))
                      \<and> status b' = SUCCESS
                      \<and> step_id b \<notin> step_id ` set (failed_steps (snd (execute_plan registry env p)))
                 else b' \<in> set (failed_steps (snd (execute_plan registry env p)))
                      \<and> status b' = FAILED
                      \<and> step_id b \<notin> step_id ` set (completed_steps (snd (execute_plan registry env p))))))"
proof -
  let ?st0 = "\<lparr> calls = 0, completed = [], failed = [], handled = [] \<rparr>"
  let ?sched = "sort_steps_by_priority_and_dependencies (steps p)"
  let ?final = "run_all registry env ?sched ?st0"
  note run = execute_plan_no_timeout [OF assms(2), of registry p]
  have distinct: "distinct (map step_id ?sched)"
    using assms(1) by (rule sort_steps_distinct)
  have ok: "schedule_ok ?sched []"
    by (rule sort_steps_schedule_ok)
  obtain pre post where c: "?sched = pre @ c # post"
    using assms(4) by (metis set_sort_steps split_list)
  obtain pre' post' where b: "?sched = pre' @ b # post'"
    using assms(6) by (metis set_sort_steps split_list)
  have failed: "a \<in> step_id ` set (failed ?final)" using assms(3) run by simp
  have deps: "set (dependencies b) \<subseteq> step_id ` set (completed ?final)"
    using assms(7) run by simp
  have dc: "distinct (map step_id (pre @ c # post))" using distinct c by simp
  have fc: "?final = run_all registry env (pre @ c # post) ?st0"
    using c by simp
  note skipped = dependent_of_failed_is_skipped [OF dc fc assms(5) failed]
  have "map step_id (handled ?final) = map step_id ?sched"
    by (simp add: run_all_handled_ids)
  then have handled_distinct: "distinct (map step_id (handled ?final))"
    using distinct by simp
  then have only: "\<forall>s \<in> set (handled ?final). step_id s = step_id c \<longrightarrow> s = c \<lparr> status := SKIPPED \<rparr>"
    using skipped(1) same_id_same_step [of "handled ?final" _ "c \<lparr> status := SKIPPED \<rparr>"]
    by simp
  have db: "distinct (map step_id (pre' @ b # post'))" using distinct b by simp
  have okb: "schedule_ok (pre' @ b # post') []" using ok b by simp
  have fb: "?final = run_all registry env (pre' @ b # post') ?st0"
    using b by simp
  note ran = step_with_completed_dependencies_runs [OF db okb fb deps]
  have apart: "step_id ` set (completed ?final) \<inter> step_id ` set (failed ?final) = {}"
    using distinct by (intro run_all_disjoint) simp_all
  have c1: "c \<lparr> status := SKIPPED \<rparr> \<in> set (fst (execute_plan registry env p))"
    unfolding run by (rule skipped(1))
  have c2: "\<forall>s \<in> set (fst (execute_plan registry env p)).
      step_id s = step_id c \<longrightarrow> s = c \<lparr> status := SKIPPED \<rparr>"
    unfolding run by (rule only)
  have c3: "step_id c \<notin> step_id ` set (completed_steps (snd (execute_plan registry env p)))"
    unfolding run by (rule skipped(2))
  have c4: "step_id c \<notin> step_id ` set (failed_steps (snd (execute_plan registry env p)))"
    unfolding run by (rule skipped(3))
  have c5: "\<exists>b'. step_id b' = step_id b \<and> b' \<in> set (fst (execute_plan registry env p))
      \<and> (b' \<in> set (completed_steps (snd (execute_plan registry env p))) \<and> status b' = SUCCESS
          \<or> b' \<in> set (failed_steps (snd (execute_plan registry env p))) \<and> status b' = FAILED)"
    unfolding run by (rule ran(1))
  have c6: "tool_reliable registry env (tool b) \<longrightarrow>
      (\<exists>b'. step_id b' = step_id b
         \<and> b' \<in> set (completed_steps (snd (execute_plan registry env p)))
         \<and> status b' = SUCCESS)"
    unfolding run using ran(2) by blast
  have c7: "\<forall>pre post. ?sched = pre @ b # post \<longrightarrow>
      (let n = calls (fst (run_steps registry env pre ?st0));
           first_run = execute_step registry env n b;
           second_run = retry_step registry env (Suc n) (snd first_run) True;
           b' = (if fst (fst first_run) then snd first_run else fst (snd second_run))
       in b' \<in> set (fst (execute_plan registry env p))
          \<and> (\<forall>s \<in> set (fst (execute_plan registry env p)). step_id s = step_id b \<longrightarrow> s = b')
          \<and> (if fst (fst first_run) \<or> fst (fst second_run)
              then b' \<in> set (completed_steps (snd (execute_plan registry env p)))
                   \<and> status b' = SUCCESS
                   \<and> step_id b \<notin> step_id ` set (failed_steps (snd (execute_plan registry env p)))
              else b' \<in> set (failed_steps (snd (execute_plan registry env p)))
                   \<and> status b' = FAILED
                   \<and> step_id b \<notin> step_id ` set (completed_steps (snd (execute_plan registry env p)))))"
  proof (intro allI impI)
    fix earlier later
    assume split: "?sched = earlier @ b # later"
    define n where "n = calls (run_all registry env earlier ?st0)"
    obtain first b1 where first: "execute_step registry env n b = (first, b1)"
      by (cases "execute_step registry env n b")
    obtain second b2 m where second: "retry_step registry env (Suc n) b1 True = (second, b2, m)"
      by (cases "retry_step registry env (Suc n) b1 True") auto
    define b' where "b' = (if fst first then b1 else b2)"
    have d: "distinct (map step_id (earlier @ b # later))" using distinct split by simp
    have o: "schedule_ok (earlier @ b # later) []" using ok split by simp
    have f: "?final = run_all registry env (earlier @ b # later) ?st0"
      using split by simp
    note outcome = step_outcome_at_turn [OF d o f deps n_def first second]
    have in_handled: "b' \<in> set (handled ?final)"
      using outcome(1) by (simp add: b'_def)
    have id: "step_id b' = step_id b"
      using outcome(2,3,4) by (cases "fst first"; cases "fst second") (auto simp: b'_def)
    have unique: "\<forall>s \<in> set (handled ?final). step_id s = step_id b \<longrightarrow> s = b'"
      using handled_distinct in_handled id same_id_same_step [of "handled ?final" _ b']
      by simp
    have verdict: "if fst first \<or> fst second
        then b' \<in> set (completed ?final) \<and> status b' = SUCCESS
             \<and> step_id b \<notin> step_id ` set (failed ?final)
        else b' \<in> set (failed ?final) \<and> status b' = FAILED
             \<and> step_id b \<notin> step_id ` set (completed ?final)"
    proof (cases "fst first \<or> fst second")
      case True
      then have "b' \<in> set (completed ?final) \<and> status b' = SUCCESS"
        using outcome(2,3) by (cases "fst first") (auto simp: b'_def)
      moreover from this have "step_id b \<notin> step_id ` set (failed ?final)"
        using apart id by (metis disjoint_iff imageI)
      ultimately show ?thesis using True by simp
    next
      case False
      then have "b' \<in> set (failed ?final) \<and> status b' = FAILED"
        using outcome(4) by (auto simp: b'_def)
      moreover from this have "step_id b \<notin> step_id ` set (completed ?final)"
        using apart id by (metis disjoint_iff imageI)
      ultimately show ?thesis using False by simp
    qed
    have n: "calls (fst (run_steps registry env earlier ?st0)) = n"
      by (simp add: n_def run_steps_no_timeout [OF assms(2)])
    show "let n = calls (fst (run_steps registry env earlier ?st0));
           first_run = execute_step registry env n b;
           second_run = retry_step registry env (Suc n) (snd first_run) True;
           b' = (if fst (fst first_run) then snd first_run else fst (snd second_run))
       in b' \<in> set (fst (execute_plan registry env p))
          \<and> (\<forall>s \<in> set (fst (execute_plan registry env p)). step_id s = step_id b \<longrightarrow> s = b')
          \<and> (if fst (fst first_run) \<or> fst (fst second_run)
              then b' \<in> set (completed_steps (snd (execute_plan registry env p)))
                   \<and> status b' = SUCCESS
                   \<and> step_id b \<notin> step_id ` set (failed_steps (snd (execute_plan registry env p)))
              else b' \<in> set (failed_steps (snd (execute_plan registry env p)))
                   \<and> status b' = FAILED
                   \<and> step_id b \<notin> step_id ` set (completed_steps (snd (execute_plan registry env p))))"
      unfolding run Let_def n first second fst_conv snd_conv
      using in_handled unique verdict unfolding b'_def by (intro conjI)
  qed
  from c1 c2 c3 c4 c5 c6 c7 show ?thesis
    by (intro conjI)
qed

lemma second_chance_schedule:
  "sort_steps_by_priority_and_dependencies (steps (plan_of [step_A, step_B, step_R, step_C]))
     = [step_A, step_B, step_C] @ step_R # []"
  by (simp add: sort_steps_by_priority_and_dependencies_def sort_loop.simps next_step_def
      plan_of_def step_A_def step_B_def step_C_def step_R_def new_step_def Let_def)

lemma second_chance_run:
  "map (\<lambda>s. (step_id s, status s, retry_count s, parameters s))
     (fst (execute_plan second_chance_registry second_chance_env
            (plan_of [step_A, step_B, step_R, step_C])))
     = [(''A'', FAILED, 1, [(''url'', PyStr ''mirror'')]), (''B'', SUCCESS, 0, []),
        (''C'', SKIPPED, 0, []), (''R'', SUCCESS, 1, [(''url'', PyStr ''mirror'')])]"
  "map step_id (failed_steps (snd (execute_plan second_chance_registry second_chance_env
      (plan_of [step_A, step_B, step_R, step_C])))) = [''A'']"
  "calls (fst (run_steps second_chance_registry second_chance_env [step_A, step_B, step_C]
      \<lparr> calls = 0, completed = [], failed = [], handled = [] \<rparr>)) = 3"
  "\<not> fst (fst (execute_step second_chance_registry second_chance_env 3 step_R))"
  "fst (fst (retry_step second_chance_registry second_chance_env 4
      (snd (execute_step second_chance_registry second_chance_env 3 step_R)) True))"
  "retry_count (fst (snd (retry_step second_chance_registry second_chance_env 4
      (snd (execute_step second_chance_registry second_chance_env 3 step_R)) True))) = 1"
  by code_simp+

theorem failed_step_skips_dependents_witness:
  "distinct (map step_id (steps (plan_of [step_A, step_B, step_R, step_C])))
   \<and> no_timeout second_chance_env
   \<and> ''A'' \<in> step_id ` set (failed_steps (snd (execute_plan second_chance_registry
        second_chance_env (plan_of [step_A, step_B, step_R, step_C]))))
   \<and> ''A'' \<in> set (dependencies step_C)
   \<and> dependencies step_B = [] \<and> dependencies step_R = []
   \<and> tool_reliable second_chance_registry second_chance_env (tool step_B)
   \<and> sort_steps_by_priority_and_dependencies (steps (plan_of [step_A, step_B, step_R, step_C]))
        = [step_A, step_B, step_C] @ step_R # []
   \<and> step_C \<lparr> status := SKIPPED \<rparr> \<in> set (fst (execute_plan second_chance_registry
        second_chance_env (plan_of [step_A, step_B, step_R, step_C])))
   \<and> (\<exists>b'. step_id b' = step_id step_B
         \<and> b' \<in> set (completed_steps (snd (execute_plan second_chance_registry
               second_chance_env (plan_of [step_A, step_B, step_R, step_C]))))
         \<and> status b' = SUCCESS)
   \<and> \<not> fst (fst (execute_step second_chance_registry second_chance_env 3 step_R))
   \<and> fst (fst (retry_step second_chance_registry second_chance_env 4
        (snd (execute_step second_chance_registry second_chance_env 3 step_R)) True))
   \<and> fst (snd (retry_step second_chance_registry second_chance_env 4
        (snd (execute_step second_chance_registry second_chance_env 3 step_R)) True))
       \<in> set (completed_steps (snd (execute_plan second_chance_registry
               second_chance_env (plan_of [step_A, step_B, step_R, step_C]))))
   \<and> status (fst (snd (retry_step second_chance_registry second_chance_env 4
        (snd (execute_step second_chance_registry second_chance_env 3 step_R)) True))) = SUCCESS
   \<and> ''R'' \<notin> step_id ` set (failed_steps (snd (execute_plan second_chance_registry
        second_chance_env (plan_of [step_A, step_B, step_R, step_C]))))"
proof -
  let ?p = "plan_of [step_A, step_B, step_R, step_C]"
  let ?run = "execute_plan second_chance_registry second_chance_env ?p"
  let ?retried = "fst (snd (retry_step second_chance_registry second_chance_env 4
        (snd (execute_step second_chance_registry second_chance_env 3 step_R)) True))"
  have h1: "distinct (map step_id (steps ?p))"
    by (simp add: plan_of_def step_A_def step_B_def step_C_def step_R_def new_step_def)
  have h2: "no_timeout second_chance_env"
    by (simp add: no_timeout_def second_chance_env_def scenario_env_def)
  have h3: "''A'' \<in> step_id ` set (failed_steps (snd ?run))"
    using second_chance_run(2) by (metis list.set_intros(1) set_map)
  have h4: "step_C \<in> set (steps ?p)" "step_B \<in> set (steps ?p)" "step_R \<in> set (steps ?p)"
    by (simp_all add: plan_of_def)
  have h5: "''A'' \<in> set (dependencies step_C)"
    by (simp add: step_C_def)
  have free: "dependencies step_B = []" "dependencies step_R = []"
    by (simp_all add: step_B_def step_R_def new_step_def)
  have h6: "set (dependencies step_B) \<subseteq> step_id ` set (completed_steps (snd ?run))"
    "set (dependencies step_R) \<subseteq> step_id ` set (completed_steps (snd ?run))"
    by (simp_all add: free)
  have h7: "tool_reliable second_chance_registry second_chance_env (tool step_B)"
    by (simp add: tool_reliable_def second_chance_registry_def scenario_registry_def
        second_chance_env_def scenario_env_def step_B_def new_step_def)
  note for_B = failed_step_skips_dependents [OF h1 h2 h3 h4(1) h5 h4(2) h6(1)]
  note for_R = failed_step_skips_dependents [OF h1 h2 h3 h4(1) h5 h4(3) h6(2)]
  have skipped: "step_C \<lparr> status := SKIPPED \<rparr> \<in> set (fst ?run)"
    using for_R by (rule conjunct1)
  have B: "\<exists>b'. step_id b' = step_id step_B \<and> b' \<in> set (completed_steps (snd ?run))
      \<and> status b' = SUCCESS"
    using for_B h7 by blast
  note at_turn = for_R [THEN conjunct2, THEN conjunct2, THEN conjunct2, THEN conjunct2,
      THEN conjunct2, THEN conjunct2, THEN spec, THEN spec, THEN mp, OF second_chance_schedule,
      unfolded second_chance_run(3) Let_def]
  have R: "?retried \<in> set (completed_steps (snd ?run)) \<and> status ?retried = SUCCESS
      \<and> step_id step_R \<notin> step_id ` set (failed_steps (snd ?run))"
    using at_turn second_chance_run(4,5) by simp
  then have "''R'' \<notin> step_id ` set (failed_steps (snd ?run))"
    by (simp add: step_R_def new_step_def)
  with h1 h2 h3 h5 free h7 second_chance_schedule skipped B second_chance_run(4,5) R
  show ?thesis by (intro conjI) simp_all
qed

text \<open>
  Claim C4, as stated, fails in three ways. With \<open>A\<close> and \<open>F\<close> failing, \<open>B\<close> depending on
  \<open>F\<close> only and \<open>C\<close> on \<open>A\<close> and \<open>B\<close>, there is no dependency between \<open>A\<close> and \<open>B\<close>, yet
  \<open>B\<close> is skipped. When the deadline has passed after the first step, \<open>B\<close> is not run and
  \<open>C\<close> stays pending. And when a second step carries the id of \<open>A\<close> and succeeds, \<open>C\<close> is
  executed although the step \<open>A\<close> failed.
\<close>

theorem independent_step_counterexample:
  "''A'' \<notin> set (dependencies step_B_after_F) \<and> ''B'' \<notin> set (dependencies step_A)
   \<and> map (\<lambda>s. (step_id s, status s))
        (fst (execute_plan scenario_registry scenario_env
               (plan_of [step_A, step_F, step_B_after_F, step_C])))
      = [(''A'', FAILED), (''F'', FAILED), (''B'', SKIPPED), (''C'', SKIPPED)]
   \<and> map (\<lambda>s. (step_id s, status s))
        (fst (execute_plan scenario_registry hasty_env (plan_of [step_A, step_B, step_C])))
      = [(''A'', FAILED), (''B'', PENDING), (''C'', PENDING)]
   \<and> map (\<lambda>s. (step_id s, status s))
        (fst (execute_plan scenario_registry scenario_env
               (plan_of [step_A, step_A_twin, step_B, step_C])))
      = [(''A'', FAILED), (''A'', SUCCESS), (''B'', SUCCESS), (''C'', SUCCESS)]"
  by code_simp

end
